theory Spec2Isabelle
  imports Main
begin

section \<open>Strings\<close>

text \<open>
  A string is a list of characters, one \<^typ>\<open>char\<close> per UTF-16 code unit below 256
  (ASCII and Latin-1).  The character classes below are the restrictions of the ECMAScript
  classes to that range.
\<close>

definition whitespace_chars :: "char list" where
  "whitespace_chars = [CHR 0x09, CHR 0x0A, CHR 0x0B, CHR 0x0C, CHR 0x0D, CHR 0x20, CHR 0xA0]"

definition is_ws :: "char \<Rightarrow> bool" where
  \<comment> \<open>\<open>\s\<close>, and the characters \<open>trim()\<close> strips\<close>
  "is_ws c = (c \<in> set whitespace_chars)"

definition is_line_terminator :: "char \<Rightarrow> bool" where
  \<comment> \<open>the characters \<open>.\<close> does not match\<close>
  "is_line_terminator c = (c = CHR 0x0A \<or> c = CHR 0x0D)"

definition is_digit :: "char \<Rightarrow> bool" where
  "is_digit c = (c \<in> set ''0123456789'')"

definition is_version_char :: "char \<Rightarrow> bool" where
  \<comment> \<open>\<open>[0-9.]\<close>\<close>
  "is_version_char c = (is_digit c \<or> c = CHR ''.'')"

definition toLowerCase_char :: "char \<Rightarrow> char" where
  "toLowerCase_char c =
     (let n = (of_char c :: nat)
      in if (65 \<le> n \<and> n \<le> 90) \<or> (192 \<le> n \<and> n \<le> 222 \<and> n \<noteq> 215)
         then char_of (n + 32) else c)"

definition toLowerCase :: "string \<Rightarrow> string" where
  "toLowerCase s = map toLowerCase_char s"

definition canonicalize :: "char \<Rightarrow> char" where
  \<comment> \<open>case folding of the \<open>i\<close> flag; the patterns of the source only hold ASCII letters,
      which no character above 127 folds to\<close>
  "canonicalize c =
     (let n = (of_char c :: nat)
      in if 97 \<le> n \<and> n \<le> 122 then char_of (n - 32) else c)"

definition trim :: "string \<Rightarrow> string" where
  "trim s = rev (dropWhile is_ws (rev (dropWhile is_ws s)))"

fun startsWith :: "string \<Rightarrow> string \<Rightarrow> bool" where
  "startsWith s [] = True"
| "startsWith [] (p # ps) = False"
| "startsWith (c # cs) (p # ps) = (c = p \<and> startsWith cs ps)"

fun includes_js :: "string \<Rightarrow> string \<Rightarrow> bool" where
  "includes_js [] t = (t = [])"
| "includes_js (c # cs) t = (startsWith (c # cs) t \<or> includes_js cs t)"

fun split :: "char \<Rightarrow> string \<Rightarrow> string list" where
  \<comment> \<open>\<open>s.split(sep)\<close> for a one-character separator; never the empty list\<close>
  "split sep [] = [[]]"
| "split sep (c # cs) =
     (if c = sep then [] # split sep cs
      else (let r = split sep cs in (c # hd r) # tl r))"

definition replace_all_char :: "(char \<Rightarrow> bool) \<Rightarrow> string \<Rightarrow> string \<Rightarrow> string" where
  \<comment> \<open>\<open>s.replace(/[...]/g, r)\<close> for a one-character class\<close>
  "replace_all_char P r s = concat (map (\<lambda>c. if P c then r else [c]) s)"

section \<open>Regular expressions\<close>

text \<open>
  The patterns of the source are written as terms of \<open>regex\<close> and run by a backtracking
  matcher that lists, in the order ECMAScript tries them, the states in which a pattern
  can stop.  A state is the position reached, the rest of the input and the captures.
\<close>

datatype atom =
    Lit char            \<comment> \<open>a literal character\<close>
  | NotLit char         \<comment> \<open>\<open>[^c]\<close>\<close>
  | Dot                 \<comment> \<open>\<open>.\<close>\<close>
  | Space               \<comment> \<open>\<open>\s\<close>\<close>
  | NotSpace            \<comment> \<open>\<open>[^\s]\<close>\<close>
  | VersionChar         \<comment> \<open>\<open>[0-9.]\<close>\<close>

datatype regex =
    Atom atom
  | Eps
  | Seq regex regex
  | Opt regex           \<comment> \<open>\<open>r?\<close>\<close>
  | Star regex          \<comment> \<open>\<open>r*\<close>\<close>
  | Plus regex          \<comment> \<open>\<open>r+\<close>\<close>
  | PlusLazy regex      \<comment> \<open>\<open>r+?\<close>\<close>
  | Group nat regex     \<comment> \<open>the capture group of that number\<close>
  | Bol                 \<comment> \<open>\<open>^\<close>\<close>
  | Eol                 \<comment> \<open>\<open>$\<close>\<close>

record mstate =
  pos :: nat
  rest :: string
  caps :: "(nat \<times> string) list"

fun atom_ok :: "bool \<Rightarrow> atom \<Rightarrow> char \<Rightarrow> bool" where
  "atom_ok icase (Lit c) x = (if icase then canonicalize x = canonicalize c else x = c)"
| "atom_ok icase (NotLit c) x = (x \<noteq> c)"
| "atom_ok icase Dot x = (\<not> is_line_terminator x)"
| "atom_ok icase Space x = is_ws x"
| "atom_ok icase NotSpace x = (\<not> is_ws x)"
| "atom_ok icase VersionChar x = is_version_char x"

definition advance :: "mstate \<Rightarrow> mstate" where
  "advance s = s\<lparr>pos := Suc (pos s), rest := tl (rest s)\<rparr>"

definition progress :: "mstate \<Rightarrow> mstate \<Rightarrow> bool" where
  "progress s s' = (length (rest s') < length (rest s))"

primrec greedy :: "nat \<Rightarrow> (mstate \<Rightarrow> mstate list) \<Rightarrow> mstate \<Rightarrow> mstate list" where
  \<comment> \<open>zero or more rounds, the longest first; a round that consumes nothing is dropped\<close>
  "greedy 0 f s = [s]"
| "greedy (Suc n) f s = concat (map (greedy n f) (filter (progress s) (f s))) @ [s]"

primrec lazy :: "nat \<Rightarrow> (mstate \<Rightarrow> mstate list) \<Rightarrow> mstate \<Rightarrow> mstate list" where
  \<comment> \<open>zero or more rounds, the shortest first\<close>
  "lazy 0 f s = [s]"
| "lazy (Suc n) f s = s # concat (map (lazy n f) (filter (progress s) (f s)))"

primrec matches :: "bool \<Rightarrow> regex \<Rightarrow> mstate \<Rightarrow> mstate list" where
  "matches icase (Atom a) s =
     (case rest s of [] \<Rightarrow> [] | x # _ \<Rightarrow> if atom_ok icase a x then [advance s] else [])"
| "matches icase Eps s = [s]"
| "matches icase (Seq r1 r2) s = concat (map (matches icase r2) (matches icase r1 s))"
| "matches icase (Opt r) s = matches icase r s @ [s]"
| "matches icase (Star r) s = greedy (length (rest s)) (matches icase r) s"
| "matches icase (Plus r) s =
     concat (map (\<lambda>s'. greedy (length (rest s')) (matches icase r) s') (matches icase r s))"
| "matches icase (PlusLazy r) s =
     concat (map (\<lambda>s'. lazy (length (rest s')) (matches icase r) s') (matches icase r s))"
| "matches icase (Group n r) s =
     map (\<lambda>s'. s'\<lparr>caps := (n, take (pos s' - pos s) (rest s)) # caps s'\<rparr>) (matches icase r s)"
| "matches icase Bol s = (if pos s = 0 then [s] else [])"
| "matches icase Eol s = (if rest s = [] then [s] else [])"

definition seqs :: "regex list \<Rightarrow> regex" where
  "seqs rs = foldr Seq rs Eps"

definition lit :: "string \<Rightarrow> regex" where
  "lit cs = seqs (map (\<lambda>c. Atom (Lit c)) cs)"

record match_result =
  match_start :: nat
  match_end :: nat
  groups :: "(nat \<times> string) list"

fun exec_from :: "bool \<Rightarrow> regex \<Rightarrow> nat \<Rightarrow> string \<Rightarrow> match_result option" where
  \<comment> \<open>the leftmost match, and at that place the first one the backtracking finds\<close>
  "exec_from icase r i s =
     (case matches icase r \<lparr>pos = i, rest = s, caps = []\<rparr> of
        s' # _ \<Rightarrow> Some \<lparr>match_start = i, match_end = pos s', groups = caps s'\<rparr>
      | [] \<Rightarrow> (case s of [] \<Rightarrow> None | _ # cs \<Rightarrow> exec_from icase r (Suc i) cs))"

definition match :: "bool \<Rightarrow> regex \<Rightarrow> string \<Rightarrow> match_result option" where
  \<comment> \<open>\<open>s.match(/r/)\<close>, or \<open>s.match(/r/i)\<close> when \<open>icase\<close>\<close>
  "match icase r s = exec_from icase r 0 s"

definition group :: "match_result \<Rightarrow> nat \<Rightarrow> string option" where
  \<comment> \<open>\<open>m[n]\<close>; \<open>None\<close> is \<open>undefined\<close>\<close>
  "group m n = map_of (groups m) n"

definition replace_first :: "bool \<Rightarrow> regex \<Rightarrow> string \<Rightarrow> string \<Rightarrow> string" where
  \<comment> \<open>\<open>s.replace(/r/, t)\<close> without the \<open>g\<close> flag\<close>
  "replace_first icase r t s =
     (case match icase r s of
        None \<Rightarrow> s
      | Some m \<Rightarrow> take (match_start m) s @ t @ drop (match_end m) s)"

section \<open>Device records\<close>

datatype category = physicalDevices | offlineDevices | simulators

text \<open>
  \<open>DeviceInfo\<close>: the fields \<open>id\<close>, \<open>name\<close> and \<open>index\<close> of the source are \<open>dev_id\<close>,
  \<open>dev_name\<close> and \<open>dev_index\<close> here; an optional field is an \<open>option\<close>.
\<close>

record DeviceInfo =
  dev_id :: string
  dev_name :: string
  category :: "category option"
  platform :: "string option"
  osVersion :: "string option"
  status :: "string option"
  dev_index :: "int option"
  modelName :: "string option"

record CategorizedDevices =
  physical :: "DeviceInfo list"
  offline :: "DeviceInfo list"
  sims :: "DeviceInfo list"

definition device :: "string \<Rightarrow> string \<Rightarrow> category \<Rightarrow> DeviceInfo" where
  \<comment> \<open>the object literal \<open>{ name, id, category }\<close>\<close>
  "device n i c =
     \<lparr>dev_id = i, dev_name = n, category = Some c, platform = None, osVersion = None,
      status = None, dev_index = None, modelName = None\<rparr>"

definition no_devices :: CategorizedDevices where
  "no_devices = \<lparr>physical = [], offline = [], sims = []\<rparr>"

datatype js_error = Error string | TypeError string

fun message :: "js_error \<Rightarrow> string" where
  "message (Error m) = m"
| "message (TypeError m) = m"

text \<open>What the handlers write to the console, and the questions they ask.\<close>

datatype event =
    Heading string
  | Selectable "int option" string string   \<comment> \<open>a numbered line: index, name, id\<close>
  | SelectableEmulator int string           \<comment> \<open>a numbered line: index, name\<close>
  | Unavailable string string               \<comment> \<open>an offline device: name, id\<close>
  | NoPhysicalConnected
  | NoDevicesAvailable
  | Question
  | InvalidSelection nat
  | MaximumAttempts
  | InvalidUsingDefault
  | SelectedDevice string
  | ErrorLogged string

section \<open>Android: \<open>listDevices\<close>\<close>

definition deviceMatch_re :: regex where
  \<comment> \<open>\<open>/^([^\s]+)\s+device\s+(.*)$/\<close>\<close>
  "deviceMatch_re =
     seqs [Bol, Group 1 (Plus (Atom NotSpace)), Plus (Atom Space), lit ''device'',
           Plus (Atom Space), Group 2 (Star (Atom Dot)), Eol]"

definition modelMatch_re :: regex where
  \<comment> \<open>\<open>/model:([^\s]+)/\<close>\<close>
  "modelMatch_re = seqs [lit ''model:'', Group 1 (Plus (Atom NotSpace))]"

definition adb_line :: "string \<Rightarrow> DeviceInfo list" where
  \<comment> \<open>the body of the loop over the lines of \<open>adb devices -l\<close>: the records one line adds\<close>
  "adb_line line =
     (if trim line \<noteq> [] then
        (case match False deviceMatch_re line of
           None \<Rightarrow> []
         | Some deviceMatch \<Rightarrow>
             (let id = the (group deviceMatch 1);
                  details = the (group deviceMatch 2);
                  name = (case match False modelMatch_re details of
                            None \<Rightarrow> ''Android Device''
                          | Some modelMatch \<Rightarrow>
                              replace_all_char (\<lambda>c. c = CHR ''_'') '' '' (the (group modelMatch 1)))
              in [device name id physicalDevices]))
      else [])"

definition avd_line :: "string \<Rightarrow> DeviceInfo list" where
  \<comment> \<open>the body of the loop over the lines of \<open>emulator -list-avds\<close>\<close>
  "avd_line emulator =
     (if trim emulator \<noteq> []
      then [device (trim emulator) (''emulator-'' @ trim emulator) simulators]
      else [])"

definition android_listDevices ::
    "js_error + string \<Rightarrow> js_error + string \<Rightarrow> DeviceInfo list \<times> event list" where
  \<comment> \<open>the arguments are the outcomes of the two commands, \<open>Inl\<close> a rejected promise;
      the second command only runs when the first has succeeded\<close>
  "android_listDevices adb avds =
     (case adb of
        Inl e \<Rightarrow> ([], [ErrorLogged (''Error listing Android devices: '' @ message e)])
      | Inr adbDevices \<Rightarrow>
          (let lines = tl (split CHR 0x0A adbDevices);
               devices = concat (map adb_line lines)
           in case avds of
                Inl e \<Rightarrow> ([], [ErrorLogged (''Error listing Android devices: '' @ message e)])
              | Inr emulators \<Rightarrow>
                  (devices @ concat (map avd_line (split CHR 0x0A emulators)), [])))"

section \<open>Utils: \<open>filterSimulatorsByHighestOSVersion\<close>\<close>

definition truthy :: "string option \<Rightarrow> bool" where
  \<comment> \<open>a string that is neither \<open>undefined\<close> nor empty\<close>
  "truthy v = (case v of None \<Rightarrow> False | Some s \<Rightarrow> s \<noteq> [])"

definition osMatch_id_re :: regex where
  \<comment> \<open>\<open>/OS:([0-9.]+)/i\<close>, matched with the \<open>i\<close> flag\<close>
  "osMatch_id_re = seqs [lit ''OS:'', Group 1 (Plus (Atom VersionChar))]"

definition nameOsMatch_re :: regex where
  \<comment> \<open>\<open>/\(([0-9.]+)\)/\<close>\<close>
  "nameOsMatch_re =
     seqs [Atom (Lit CHR ''(''), Group 1 (Plus (Atom VersionChar)), Atom (Lit CHR '')'')]"

definition simulator_suffix_re :: regex where
  \<comment> \<open>\<open>/\s+Simulator$/i\<close>, matched with the \<open>i\<close> flag\<close>
  "simulator_suffix_re = seqs [Plus (Atom Space), lit ''Simulator'', Eol]"

definition version_suffix_re :: regex where
  \<comment> \<open>\<open>/\s*\([0-9.]+\)\s*$/\<close>\<close>
  "version_suffix_re =
     seqs [Star (Atom Space), Atom (Lit CHR ''(''), Plus (Atom VersionChar),
           Atom (Lit CHR '')''), Star (Atom Space), Eol]"

definition extract_osVersion :: "DeviceInfo \<Rightarrow> string" where
  \<comment> \<open>the local \<open>osVersion\<close> of the first loop\<close>
  "extract_osVersion simulator =
     (if truthy (osVersion simulator) then the (osVersion simulator)
      else
        (let v1 = (case match True osMatch_id_re (dev_id simulator) of
                     None \<Rightarrow> ''0''
                   | Some osMatch \<Rightarrow>
                       if truthy (group osMatch 1) then the (group osMatch 1) else ''0'')
         in if v1 = ''0'' then
              (case match False nameOsMatch_re (dev_name simulator) of
                 None \<Rightarrow> v1
               | Some nameOsMatch \<Rightarrow>
                   if truthy (group nameOsMatch 1) then the (group nameOsMatch 1) else v1)
            else v1))"

definition extract_modelName :: "string \<Rightarrow> string" where
  \<comment> \<open>the local \<open>modelName\<close> of the first loop, computed from the name\<close>
  "extract_modelName n =
     replace_first False version_suffix_re [] (replace_first True simulator_suffix_re [] n)"

definition with_version :: "DeviceInfo \<Rightarrow> DeviceInfo" where
  \<comment> \<open>\<open>{ ...simulator, osVersion, modelName }\<close>\<close>
  "with_version simulator =
     simulator\<lparr>osVersion := Some (extract_osVersion simulator),
               modelName := Some (extract_modelName (dev_name simulator))\<rparr>"

text \<open>
  \<open>modelGroups\<close> is an ordinary object used as a map: its own properties are an association
  list in insertion order, and a key it does not own is looked up in \<open>Object.prototype\<close>.
  Every property found there is truthy and has no \<open>push\<close>, so the call of \<open>push\<close> on it
  throws a \<open>TypeError\<close>.
\<close>

definition Object_prototype_keys :: "string list" where
  "Object_prototype_keys =
     [''constructor'', ''__defineGetter__'', ''__defineSetter__'', ''hasOwnProperty'',
      ''__lookupGetter__'', ''__lookupSetter__'', ''isPrototypeOf'', ''propertyIsEnumerable'',
      ''toString'', ''valueOf'', ''__proto__'', ''toLocaleString'']"

type_synonym modelGroups = "(string \<times> DeviceInfo list) list"

definition push_to_group :: "string \<Rightarrow> DeviceInfo \<Rightarrow> modelGroups \<Rightarrow> modelGroups" where
  "push_to_group k d g = map (\<lambda>(k', ds). if k' = k then (k', ds @ [d]) else (k', ds)) g"

definition group_simulator :: "modelGroups \<Rightarrow> DeviceInfo \<Rightarrow> js_error + modelGroups" where
  \<comment> \<open>one round of the first \<open>forEach\<close>\<close>
  "group_simulator g simulator =
     (let k = extract_modelName (dev_name simulator)
      in case map_of g k of
           Some ds \<Rightarrow> Inr (push_to_group k (with_version simulator) g)
         | None \<Rightarrow>
             if k \<in> set Object_prototype_keys
             then Inl (TypeError ''modelGroups[modelName].push is not a function'')
             else Inr (g @ [(k, [with_version simulator])]))"

fun group_simulators :: "modelGroups \<Rightarrow> DeviceInfo list \<Rightarrow> js_error + modelGroups" where
  "group_simulators g [] = Inr g"
| "group_simulators g (d # ds) =
     (case group_simulator g d of Inl e \<Rightarrow> Inl e | Inr g' \<Rightarrow> group_simulators g' ds)"

definition Number_digits :: "string \<Rightarrow> nat" where
  \<comment> \<open>\<open>Number(s)\<close> for a string of decimal digits (the empty string gives 0); the value
      is exact below \<open>2^53\<close>\<close>
  "Number_digits s = foldl (\<lambda>n c. 10 * n + (of_char c - 48)) 0 s"

definition version_parts :: "string \<Rightarrow> nat list" where
  \<comment> \<open>\<open>v.split('.').map(Number)\<close>\<close>
  "version_parts v = map Number_digits (split CHR ''.'' v)"

definition part_at :: "nat list \<Rightarrow> nat \<Rightarrow> nat" where
  \<comment> \<open>\<open>i < parts.length ? parts[i] : 0\<close>\<close>
  "part_at parts i = (if i < length parts then parts ! i else 0)"

function compare_from :: "nat \<Rightarrow> nat list \<Rightarrow> nat list \<Rightarrow> int" where
  \<comment> \<open>the \<open>for\<close> loop of the comparator, from index \<open>i\<close> on\<close>
  "compare_from i a b =
     (if i < max (length a) (length b) then
        (if part_at a i \<noteq> part_at b i then int (part_at b i) - int (part_at a i)
         else compare_from (Suc i) a b)
      else 0)"
  by pat_completeness auto
termination
  by (relation "measure (\<lambda>(i, a, b). max (length a) (length b) - i)") auto

declare compare_from.simps [simp del]

definition compare_osVersion :: "DeviceInfo \<Rightarrow> DeviceInfo \<Rightarrow> int" where
  \<comment> \<open>the comparator given to \<open>sort\<close>; every record of a group has its \<open>osVersion\<close> set\<close>
  "compare_osVersion a b =
     compare_from 0 (version_parts (the (osVersion a))) (version_parts (the (osVersion b)))"

text \<open>
  \<open>Array.prototype.sort\<close> is stable; with a consistent comparator its result is the one
  stable sorted order, which insertion from the right computes.
\<close>

fun insert_sorted :: "('a \<Rightarrow> 'a \<Rightarrow> int) \<Rightarrow> 'a \<Rightarrow> 'a list \<Rightarrow> 'a list" where
  "insert_sorted cmp x [] = [x]"
| "insert_sorted cmp x (y # ys) =
     (if cmp x y \<le> 0 then x # y # ys else y # insert_sorted cmp x ys)"

definition sort_js :: "('a \<Rightarrow> 'a \<Rightarrow> int) \<Rightarrow> 'a list \<Rightarrow> 'a list" where
  "sort_js cmp xs = foldr (insert_sorted cmp) xs []"

definition is_array_index :: "string \<Rightarrow> bool" where
  \<comment> \<open>a key that is the canonical decimal form of an integer below \<open>2^32 - 1\<close>\<close>
  "is_array_index k =
     (k \<noteq> [] \<and> list_all is_digit k \<and> (k = ''0'' \<or> hd k \<noteq> CHR ''0'')
      \<and> Number_digits k < 4294967295)"

definition Object_keys :: "modelGroups \<Rightarrow> string list" where
  \<comment> \<open>array indices in ascending order, then the other keys in insertion order\<close>
  "Object_keys g =
     (let ks = map fst g
      in sort_key Number_digits (filter is_array_index ks)
         @ filter (\<lambda>k. \<not> is_array_index k) ks)"

definition highest_of_group :: "modelGroups \<Rightarrow> string \<Rightarrow> DeviceInfo list" where
  \<comment> \<open>one round of the second \<open>forEach\<close>: what it pushes to the result\<close>
  "highest_of_group g k =
     (let simulatorsForModel = sort_js compare_osVersion (the (map_of g k))
      in if length simulatorsForModel > 0 then [hd simulatorsForModel] else [])"

definition filterSimulatorsByHighestOSVersion :: "DeviceInfo list \<Rightarrow> js_error + DeviceInfo list" where
  "filterSimulatorsByHighestOSVersion simulator_list =
     (case group_simulators [] simulator_list of
        Inl e \<Rightarrow> Inl e
      | Inr g \<Rightarrow> Inr (concat (map (highest_of_group g) (Object_keys g))))"

section \<open>iOS: \<open>listDevices\<close>\<close>

definition standardMatch_re :: regex where
  \<comment> \<open>\<open>/^(.+?)\s+(\([0-9.]+\))?\s+\(([^)]+)\)$/\<close>\<close>
  "standardMatch_re =
     seqs [Bol, Group 1 (PlusLazy (Atom Dot)), Plus (Atom Space),
           Opt (Group 2 (seqs [Atom (Lit CHR ''(''), Plus (Atom VersionChar), Atom (Lit CHR '')'')])),
           Plus (Atom Space), Atom (Lit CHR ''(''), Group 3 (Plus (Atom (NotLit CHR '')''))),
           Atom (Lit CHR '')''), Eol]"

definition platformMatch_re :: regex where
  \<comment> \<open>\<open>/platform:([^,]+)/\<close>\<close>
  "platformMatch_re = seqs [lit ''platform:'', Group 1 (Plus (Atom (NotLit CHR '',''))) ]"

definition idMatch_re :: regex where
  \<comment> \<open>\<open>/id:([^,]+)/\<close>\<close>
  "idMatch_re = seqs [lit ''id:'', Group 1 (Plus (Atom (NotLit CHR '',''))) ]"

definition osMatch_re :: regex where
  \<comment> \<open>\<open>/OS:([0-9.]+)/\<close>\<close>
  "osMatch_re = seqs [lit ''OS:'', Group 1 (Plus (Atom VersionChar))]"

definition nameMatch_re :: regex where
  \<comment> \<open>\<open>/name:([^}]+)/\<close>\<close>
  "nameMatch_re = seqs [lit ''name:'', Group 1 (Plus (Atom (NotLit CHR ''}''))) ]"

definition simpleMatch_re :: regex where
  \<comment> \<open>\<open>/^(.+?) Simulator \([0-9.]+\) \(([^)]+)\)$/\<close>\<close>
  "simpleMatch_re =
     seqs [Bol, Group 1 (PlusLazy (Atom Dot)), lit '' Simulator ('', Plus (Atom VersionChar),
           lit '') ('', Group 2 (Plus (Atom (NotLit CHR '')''))), Atom (Lit CHR '')''), Eol]"

definition is_paren :: "char \<Rightarrow> bool" where
  \<comment> \<open>\<open>[()]\<close>\<close>
  "is_paren c = (c = CHR ''('' \<or> c = CHR '')'')"

definition parse_standard :: "category \<Rightarrow> match_result \<Rightarrow> DeviceInfo" where
  \<comment> \<open>the record built from a match of the standard format\<close>
  "parse_standard currentCategory standardMatch =
     (let name = trim (the (group standardMatch 1));
          version = (if truthy (group standardMatch 2)
                     then Some (replace_all_char is_paren [] (the (group standardMatch 2)))
                     else None);
          id = trim (the (group standardMatch 3));
          deviceInfo = device name id currentCategory
      in if truthy version then deviceInfo\<lparr>osVersion := version\<rparr> else deviceInfo)"

definition parse_braces :: "category \<Rightarrow> string \<Rightarrow> DeviceInfo option" where
  \<comment> \<open>the format with braces, once the three substrings have been found\<close>
  "parse_braces currentCategory line =
     (case (match False platformMatch_re line, match False idMatch_re line,
            match False osMatch_re line, match False nameMatch_re line) of
        (Some platformMatch, Some idMatch, Some osMatch, Some nameMatch) \<Rightarrow>
          Some ((device (trim (the (group nameMatch 1))) (trim (the (group idMatch 1)))
                   currentCategory)
                \<lparr>platform := Some (trim (the (group platformMatch 1))),
                 osVersion := Some (trim (the (group osMatch 1)))\<rparr>)
      | _ \<Rightarrow> None)"

definition parse_simple :: "category \<Rightarrow> string \<Rightarrow> DeviceInfo option" where
  \<comment> \<open>the simple listing format\<close>
  "parse_simple currentCategory line =
     (case match False simpleMatch_re line of
        None \<Rightarrow> None
      | Some simpleMatch \<Rightarrow>
          (let name = trim (the (group simpleMatch 1)) @ '' Simulator'';
               id = trim (the (group simpleMatch 2));
               deviceInfo = device name id currentCategory
           in case match False nameOsMatch_re line of
                None \<Rightarrow> Some deviceInfo
              | Some osMatch \<Rightarrow>
                  if truthy (group osMatch 1)
                  then Some (deviceInfo\<lparr>osVersion := group osMatch 1\<rparr>)
                  else Some deviceInfo))"

definition parse_device :: "category \<Rightarrow> string \<Rightarrow> DeviceInfo option" where
  \<comment> \<open>the three formats in the order of the \<open>if\<close> chain\<close>
  "parse_device currentCategory line =
     (case match False standardMatch_re line of
        Some standardMatch \<Rightarrow> Some (parse_standard currentCategory standardMatch)
      | None \<Rightarrow>
          if includes_js line ''platform:'' \<and> includes_js line ''OS:'' \<and> includes_js line ''name:''
          then parse_braces currentCategory line
          else parse_simple currentCategory line)"

definition add_device :: "category \<Rightarrow> DeviceInfo \<Rightarrow> CategorizedDevices \<Rightarrow> CategorizedDevices" where
  \<comment> \<open>the inclusion rules of the three categories\<close>
  "add_device currentCategory deviceInfo cd =
     (let deviceName = toLowerCase (dev_name deviceInfo)
      in case currentCategory of
           simulators \<Rightarrow>
             if includes_js deviceName ''iphone''
             then cd\<lparr>sims := sims cd @ [deviceInfo]\<rparr> else cd
         | physicalDevices \<Rightarrow>
             if \<not> includes_js deviceName ''macbook'' \<and> \<not> includes_js deviceName ''ipad''
             then cd\<lparr>physical := physical cd @ [deviceInfo]\<rparr> else cd
         | offlineDevices \<Rightarrow> cd\<lparr>offline := offline cd @ [deviceInfo]\<rparr>)"

definition ios_line ::
    "category option \<times> CategorizedDevices \<Rightarrow> string \<Rightarrow> category option \<times> CategorizedDevices" where
  \<comment> \<open>one round of the loop over the lines: the current category and the buckets\<close>
  "ios_line st raw =
     (let line = trim raw; currentCategory = fst st; cd = snd st
      in if startsWith line ''=='' then
           (if line = ''== Devices =='' then (Some physicalDevices, cd)
            else if line = ''== Devices Offline =='' then (Some offlineDevices, cd)
            else if includes_js line ''Simulator'' then (Some simulators, cd)
            else st)
         else if line = [] then st
         else (case currentCategory of
                 None \<Rightarrow> st
               | Some c \<Rightarrow>
                   (case parse_device c line of
                      None \<Rightarrow> st
                    | Some deviceInfo \<Rightarrow> (currentCategory, add_device c deviceInfo cd))))"

definition ios_categorize :: "string \<Rightarrow> CategorizedDevices" where
  \<comment> \<open>the buckets after the loop, before the simulators are filtered\<close>
  "ios_categorize rawDeviceList =
     snd (foldl ios_line (None, no_devices) (split CHR 0x0A rawDeviceList))"

definition ios_listDevices :: "js_error + string \<Rightarrow> CategorizedDevices \<times> event list" where
  \<comment> \<open>the argument is the outcome of the command, \<open>Inl\<close> a rejected promise; the \<open>catch\<close>
      block also receives what the filter throws\<close>
  "ios_listDevices cmd =
     (case cmd of
        Inl e \<Rightarrow> (no_devices, [ErrorLogged (''Error listing iOS devices: '' @ message e)])
      | Inr rawDeviceList \<Rightarrow>
          (let cd = ios_categorize rawDeviceList
           in if length (sims cd) > 0 then
                (case filterSimulatorsByHighestOSVersion (sims cd) of
                   Inl e \<Rightarrow> (no_devices, [ErrorLogged (''Error listing iOS devices: '' @ message e)])
                 | Inr highest \<Rightarrow> (cd\<lparr>sims := highest\<rparr>, []))
              else (cd, [])))"

section \<open>Selection\<close>

text \<open>
  A question is answered by the next element of a list of answers; a handler that asks
  when the list is empty is left \<open>Pending\<close>.  \<open>Rejected\<close> is a question whose promise is
  rejected.
\<close>

datatype answer = Line string | Rejected js_error

datatype 'a outcome = Returned 'a | Pending | Thrown js_error

datatype radix = Radix10 | NoRadix

definition is_hex_digit :: "char \<Rightarrow> bool" where
  "is_hex_digit c = (c \<in> set ''0123456789abcdefABCDEF'')"

definition hex_value :: "char \<Rightarrow> nat" where
  "hex_value c =
     (let n = (of_char c :: nat)
      in if n \<ge> 97 then n - 87 else if n \<ge> 65 then n - 55 else n - 48)"

definition parseInt :: "radix \<Rightarrow> string \<Rightarrow> int option" where
  \<comment> \<open>\<open>parseInt(s, 10)\<close> and \<open>parseInt(s)\<close>; \<open>None\<close> is \<open>NaN\<close>.  Leading white space and
      a sign are read, then the longest run of digits; without a radix a prefix \<open>0x\<close>
      announces hexadecimal digits.  The value is exact below \<open>2^53\<close>.\<close>
  "parseInt r s =
     (let s1 = dropWhile is_ws s;
          negative = (s1 \<noteq> [] \<and> hd s1 = CHR ''-'');
          s2 = (if s1 \<noteq> [] \<and> (hd s1 = CHR ''+'' \<or> hd s1 = CHR ''-'') then tl s1 else s1);
          hex = (r = NoRadix \<and> (startsWith s2 ''0x'' \<or> startsWith s2 ''0X''));
          z = (if hex then takeWhile is_hex_digit (drop 2 s2) else takeWhile is_digit s2);
          v = (if hex then foldl (\<lambda>n c. 16 * n + hex_value c) 0 z else Number_digits z)
      in if z = [] then None else Some (if negative then - int v else int v))"

definition find_by_index :: "DeviceInfo list \<Rightarrow> int \<Rightarrow> DeviceInfo option" where
  \<comment> \<open>\<open>allDevices.find((d) => d.index === selectedIndex)\<close>\<close>
  "find_by_index allDevices selectedIndex =
     List.find (\<lambda>d. dev_index d = Some selectedIndex) allDevices"

definition numbered_line :: "DeviceInfo \<Rightarrow> event" where
  "numbered_line d = Selectable (dev_index d) (dev_name d) (dev_id d)"

definition redisplay :: "DeviceInfo list \<Rightarrow> event list" where
  \<comment> \<open>the list shown again after the third invalid attempt\<close>
  "redisplay allDevices =
     (let ph = filter (\<lambda>d. category d = Some physicalDevices) allDevices;
          si = filter (\<lambda>d. category d = Some simulators) allDevices
      in [Heading ''== Devices ==''] @
         (if length ph > 0 then map numbered_line ph else [NoPhysicalConnected]) @
         [Heading ''== Simulators ==''] @ map numbered_line si)"

definition invalid_selection :: "DeviceInfo list \<Rightarrow> int option \<Rightarrow> bool" where
  \<comment> \<open>\<open>isNaN(selectedIndex) || !allDevices.find((d) => d.index === selectedIndex)\<close>\<close>
  "invalid_selection allDevices selectedIndex =
     (case selectedIndex of None \<Rightarrow> True | Some i \<Rightarrow> find_by_index allDevices i = None)"

definition invalid_answer :: "DeviceInfo list \<Rightarrow> string \<Rightarrow> bool" where
  \<comment> \<open>an answer that the iOS prompt counts as an invalid attempt\<close>
  "invalid_answer allDevices answer =
     invalid_selection allDevices (parseInt Radix10 (trim answer))"

definition attempt :: "DeviceInfo list \<Rightarrow> nat \<Rightarrow> string \<Rightarrow> int \<times> nat \<times> event list" where
  \<comment> \<open>the \<open>try\<close> block after the answer has arrived: the new \<open>selectedIndex\<close> and
      \<open>attempts\<close>, and what is printed\<close>
  "attempt allDevices attempts answer =
     (let selectedIndex = parseInt Radix10 (trim answer)
      in if invalid_selection allDevices selectedIndex then
           (if attempts + 1 \<ge> 3
            then (- 1, 0,
                  [InvalidSelection (length allDevices), MaximumAttempts] @ redisplay allDevices)
            else (- 1, attempts + 1, [InvalidSelection (length allDevices)]))
         else (the selectedIndex, attempts, []))"

definition logged :: "event list \<Rightarrow> 'a \<times> event list \<Rightarrow> 'a \<times> event list" where
  \<comment> \<open>events printed before those of a continuation\<close>
  "logged evs r = (fst r, evs @ snd r)"

fun prompt_loop ::
    "DeviceInfo list \<Rightarrow> int \<Rightarrow> nat \<Rightarrow> answer list \<Rightarrow> DeviceInfo option outcome \<times> event list" where
  \<comment> \<open>the \<open>while\<close> loop of \<open>promptForDeviceSelection\<close> and the lines after it\<close>
  "prompt_loop allDevices selectedIndex attempts answers =
     (if find_by_index allDevices selectedIndex = None \<and> attempts < 3 then
        (case answers of
           [] \<Rightarrow> (Pending, [Question])
         | Rejected e # _ \<Rightarrow>
             (Returned None,
              [Question, ErrorLogged (''Error during device selection: '' @ message e)])
         | Line answer # later \<Rightarrow>
             (case attempt allDevices attempts answer of
                (selectedIndex', attempts', evs) \<Rightarrow>
                  logged (Question # evs) (prompt_loop allDevices selectedIndex' attempts' later)))
      else
        (case find_by_index allDevices selectedIndex of
           Some selectedDevice \<Rightarrow>
             (Returned (Some selectedDevice), [SelectedDevice (dev_name selectedDevice)])
         | None \<Rightarrow> (Returned None, [])))"

declare prompt_loop.simps [simp del]

definition promptForDeviceSelection ::
    "DeviceInfo list \<Rightarrow> answer list \<Rightarrow> DeviceInfo option outcome \<times> event list" where
  "promptForDeviceSelection allDevices answers = prompt_loop allDevices (- 1) 0 answers"

fun number_from :: "int \<Rightarrow> DeviceInfo list \<Rightarrow> DeviceInfo list" where
  \<comment> \<open>\<open>{ ...device, index: deviceCounter }\<close> for each device, the counter going up by one\<close>
  "number_from deviceCounter [] = []"
| "number_from deviceCounter (d # ds) =
     d\<lparr>dev_index := Some deviceCounter\<rparr> # number_from (deviceCounter + 1) ds"

definition is_iphone :: "DeviceInfo \<Rightarrow> bool" where
  "is_iphone d = includes_js (toLowerCase (dev_name d)) ''iphone''"

definition ios_allDevices :: "CategorizedDevices \<Rightarrow> DeviceInfo list" where
  \<comment> \<open>\<open>allDevices\<close> when the three lists have been shown\<close>
  "ios_allDevices cd =
     number_from 1 (physical cd)
     @ number_from (1 + int (length (physical cd))) (filter is_iphone (sims cd))"

definition ios_display :: "CategorizedDevices \<Rightarrow> event list" where
  \<comment> \<open>what \<open>selectDevice\<close> prints before it looks at \<open>allDevices\<close>\<close>
  "ios_display cd =
     [Heading ''== Devices ==''] @
     (if length (physical cd) > 0
      then map numbered_line (number_from 1 (physical cd))
      else [NoPhysicalConnected]) @
     (if length (offline cd) > 0
      then Heading ''== Devices Offline =='' # map (\<lambda>d. Unavailable (dev_name d) (dev_id d)) (offline cd)
      else []) @
     (if length (sims cd) > 0
      then Heading ''== Simulators =='' #
           map numbered_line
             (number_from (1 + int (length (physical cd))) (filter is_iphone (sims cd)))
      else [])"

definition ios_selectDevice ::
    "CategorizedDevices \<Rightarrow> answer list \<Rightarrow> DeviceInfo option outcome \<times> event list" where
  "ios_selectDevice cd answers =
     (if length (ios_allDevices cd) = 0
      then (Returned None, ios_display cd @ [NoDevicesAvailable])
      else logged (ios_display cd) (promptForDeviceSelection (ios_allDevices cd) answers))"

definition android_display :: "DeviceInfo list \<Rightarrow> event list" where
  \<comment> \<open>the two numbered lists of the Android \<open>selectDevice\<close>\<close>
  "android_display devices =
     (let ph = filter (\<lambda>d. category d = Some physicalDevices) devices;
          emulators = filter (\<lambda>d. category d = Some simulators) devices
      in [Heading ''== Android Devices ==''] @
         (if length ph > 0
          then map (\<lambda>(index, d). Selectable (Some (int index + 1)) (dev_name d) (dev_id d))
                 (enumerate 0 ph)
          else [NoPhysicalConnected]) @
         (if length emulators > 0
          then Heading ''== Emulators =='' #
               map (\<lambda>(index, d). SelectableEmulator (int (length ph) + int index + 1) (dev_name d))
                 (enumerate 0 emulators)
          else []))"

definition android_invalid :: "DeviceInfo list \<Rightarrow> int option \<Rightarrow> bool" where
  \<comment> \<open>\<open>isNaN(selectedIndex) || selectedIndex < 0 || selectedIndex >= devices.length\<close>, for
      \<open>selectedIndex = parseInt(answer) - 1\<close>\<close>
  "android_invalid devices parsed =
     (case parsed of None \<Rightarrow> True | Some n \<Rightarrow> n - 1 < 0 \<or> n - 1 \<ge> int (length devices))"

definition android_choose :: "DeviceInfo list \<Rightarrow> string \<Rightarrow> string \<times> event list" where
  \<comment> \<open>what the Android \<open>selectDevice\<close> returns for an answer, and what it prints\<close>
  "android_choose devices answer =
     (if toLowerCase answer = ''e'' then (''emulator'', [])
      else if android_invalid devices (parseInt NoRadix answer)
      then (''emulator'', [InvalidUsingDefault])
      else (let selectedDevice = devices ! nat (the (parseInt NoRadix answer) - 1)
            in (dev_id selectedDevice, [SelectedDevice (dev_name selectedDevice)])))"

definition android_selectDevice ::
    "js_error + string \<Rightarrow> js_error + string \<Rightarrow> answer list \<Rightarrow> string option outcome \<times> event list" where
  \<comment> \<open>the first two arguments are the outcomes of the commands of \<open>listDevices\<close>; a rejected
      question is not caught here\<close>
  "android_selectDevice adb avds answers =
     (case android_listDevices adb avds of
        (devices, evs) \<Rightarrow>
          if length devices = 0 then (Returned None, evs @ [NoDevicesAvailable])
          else
            (case answers of
               [] \<Rightarrow> (Pending, evs @ android_display devices @ [Question])
             | Rejected e # _ \<Rightarrow> (Thrown e, evs @ android_display devices @ [Question])
             | Line answer # _ \<Rightarrow>
                 (case android_choose devices answer of
                    (chosen, evs') \<Rightarrow>
                      (Returned (Some chosen),
                       evs @ android_display devices @ [Question] @ evs'))))"

section \<open>Notions used in the properties\<close>

fun shown_index :: "event \<Rightarrow> int option list" where
  \<comment> \<open>the number printed in front of a line, if the line has one\<close>
  "shown_index (Selectable i n d) = [i]"
| "shown_index (SelectableEmulator i n) = [Some i]"
| "shown_index e = []"

definition shown_indices :: "event list \<Rightarrow> int option list" where
  "shown_indices evs = concat (map shown_index evs)"

definition only_offline :: CategorizedDevices where
  \<comment> \<open>an offline device and a simulator that is not an iPhone\<close>
  "only_offline =
     \<lparr>physical = [], offline = [device ''Old phone'' ''O-1'' offlineDevices],
      sims = [device ''iPad Air'' ''S-1'' simulators]\<rparr>"

definition example_devices :: CategorizedDevices where
  \<comment> \<open>one device of each kind, and a second simulator\<close>
  "example_devices =
     \<lparr>physical = [device ''Denner'' ''P-1'' physicalDevices],
      offline = [device ''Old phone'' ''O-1'' offlineDevices],
      sims = [device ''iPhone 15'' ''S-1'' simulators, device ''iPhone 16'' ''S-2'' simulators]\<rparr>"

text \<open>
  The order of the specification on versions: the parts are compared as numbers from the
  left, a missing part counting as 0.
\<close>

fun version_ge :: "nat list \<Rightarrow> nat list \<Rightarrow> bool" where
  "version_ge [] [] = True"
| "version_ge (a # as) [] = (a > 0 \<or> version_ge as [])"
| "version_ge [] (b # bs) = (b = 0 \<and> version_ge [] bs)"
| "version_ge (a # as) (b # bs) = (a > b \<or> (a = b \<and> version_ge as bs))"

definition version_ok :: "string \<Rightarrow> bool" where
  \<comment> \<open>a version on which \<open>Number_digits\<close> is \<open>Number\<close>: digits between the dots, every part
      below \<open>2^53\<close>\<close>
  "version_ok v \<longleftrightarrow>
     (\<forall>p \<in> set (split CHR ''.'' v). list_all is_digit p \<and> Number_digits p < 9007199254740992)"

definition model_of :: "DeviceInfo \<Rightarrow> string" where
  \<comment> \<open>the key under which the filter groups a record\<close>
  "model_of simulator = extract_modelName (dev_name simulator)"

definition version_of :: "DeviceInfo \<Rightarrow> nat list" where
  \<comment> \<open>the parts of the version the filter compares a record by\<close>
  "version_of s = version_parts (extract_osVersion s)"

definition group_of :: "string \<Rightarrow> DeviceInfo list \<Rightarrow> DeviceInfo list" where
  \<comment> \<open>the records of a model, in input order\<close>
  "group_of k simulator_list = filter (\<lambda>s. model_of s = k) simulator_list"

definition highest_in :: "DeviceInfo list \<Rightarrow> DeviceInfo \<Rightarrow> bool" where
  \<comment> \<open>a record whose version is at least every version of the group\<close>
  "highest_in grp s \<longleftrightarrow> (\<forall>t \<in> set grp. version_ge (version_of s) (version_of t))"

definition winner :: "string \<Rightarrow> DeviceInfo list \<Rightarrow> DeviceInfo" where
  \<comment> \<open>the record the sort puts first in the group of a model\<close>
  "winner k simulator_list =
     hd (sort_js compare_osVersion (map with_version (group_of k simulator_list)))"

definition grouped :: "modelGroups \<Rightarrow> DeviceInfo list \<Rightarrow> bool" where
  \<comment> \<open>the invariant of the first loop: the groups of the records seen so far\<close>
  "grouped g seen \<longleftrightarrow>
     distinct (map fst g)
     \<and> (\<forall>k ds. (k, ds) \<in> set g \<longrightarrow> ds = map with_version (filter (\<lambda>s. model_of s = k) seen))
     \<and> fst ` set g = model_of ` set seen"

fun atoms_of :: "regex \<Rightarrow> atom list" where
  \<comment> \<open>the character classes of a pattern\<close>
  "atoms_of (Atom a) = [a]"
| "atoms_of Eps = []"
| "atoms_of (Seq r1 r2) = atoms_of r1 @ atoms_of r2"
| "atoms_of (Opt r) = atoms_of r"
| "atoms_of (Star r) = atoms_of r"
| "atoms_of (Plus r) = atoms_of r"
| "atoms_of (PlusLazy r) = atoms_of r"
| "atoms_of (Group n r) = atoms_of r"
| "atoms_of Bol = []"
| "atoms_of Eol = []"

definition consumes :: "(char \<Rightarrow> bool) \<Rightarrow> mstate \<Rightarrow> mstate \<Rightarrow> bool" where
  \<comment> \<open>the second state is reached from the first by reading characters that satisfy \<open>Q\<close>\<close>
  "consumes Q s s' \<longleftrightarrow>
     (\<exists>u. rest s = u @ rest s' \<and> pos s' = pos s + length u \<and> (\<forall>c \<in> set u. Q c))"

definition ph_char :: "char \<Rightarrow> bool" where
  \<comment> \<open>the letters \<open>p\<close> and \<open>h\<close>, in either case\<close>
  "ph_char c = (toLowerCase_char c = CHR ''p'' \<or> toLowerCase_char c = CHR ''h'')"

definition sim :: "string \<Rightarrow> string \<Rightarrow> string \<Rightarrow> DeviceInfo" where
  \<comment> \<open>a simulator record with a name, a version and an id\<close>
  "sim n v i = (device n i simulators)\<lparr>osVersion := Some v\<rparr>"

definition tied_then_newer :: "DeviceInfo list" where
  \<comment> \<open>one model: two records of the same version, then a newer one\<close>
  "tied_then_newer =
     [sim ''iPhone 15'' ''17.0'' ''A'', sim ''iPhone 15'' ''17.0'' ''B'',
      sim ''iPhone 15'' ''18.0'' ''C'']"

definition tied_pair :: "DeviceInfo list" where
  \<comment> \<open>one model, twice the same version\<close>
  "tied_pair = [sim ''iPhone 15'' ''17.0'' ''A'', sim ''iPhone 15'' ''17.0'' ''B'']"

definition mixed_simulators :: "DeviceInfo list" where
  \<comment> \<open>three models, two records each: the version is in the field, in the name, in the id,
      or nowhere\<close>
  "mixed_simulators =
     [sim ''iPhone 15 Simulator'' ''17.0'' ''SIM-1'',
      device ''iPhone 15 (18.4)'' ''SIM-2'' simulators,
      device ''iPhone 16 Pro'' ''SIM-3 OS:18.4'' simulators,
      device ''iPhone 16 Pro Simulator'' ''SIM-4'' simulators,
      sim ''iPhone SE (3rd generation)'' ''18.4'' ''SIM-5'',
      sim ''iPhone SE (3rd generation)'' ''18.10'' ''SIM-6'']"

text \<open>
  The model name and the version of a record as the specification words them, written
  without patterns.  The model name is the name without a trailing word \<open>Simulator\<close> and
  then without a trailing version in parentheses, in each case with the white space in
  front of it.  The version is the \<open>osVersion\<close> of the record when it has one; otherwise
  the version that follows \<open>OS:\<close> in the id; otherwise, and also when that version is \<open>0\<close>,
  the first version in parentheses in the name; otherwise \<open>0\<close>.
\<close>

fun before_first :: "(string \<Rightarrow> bool) \<Rightarrow> string \<Rightarrow> string" where
  \<comment> \<open>the part of a string in front of the first place from which the string satisfies \<open>P\<close>;
      the whole string when there is no such place\<close>
  "before_first P [] = []"
| "before_first P (c # cs) = (if P (c # cs) then [] else c # before_first P cs)"

fun first_found :: "(string \<Rightarrow> 'a option) \<Rightarrow> string \<Rightarrow> 'a option" where
  \<comment> \<open>what \<open>f\<close> finds at the first place of a string where it finds something\<close>
  "first_found f [] = f []"
| "first_found f (c # cs) =
     (case f (c # cs) of Some v \<Rightarrow> Some v | None \<Rightarrow> first_found f cs)"

definition is_simulator_suffix :: "string \<Rightarrow> bool" where
  \<comment> \<open>white space, then the word \<open>Simulator\<close> in any case, then the end\<close>
  "is_simulator_suffix t \<longleftrightarrow>
     takeWhile is_ws t \<noteq> [] \<and> map canonicalize (dropWhile is_ws t) = ''SIMULATOR''"

definition version_in_parens :: "string \<Rightarrow> string option" where
  \<comment> \<open>the version \<open>v\<close> when the string starts with \<open>(v)\<close>, \<open>v\<close> being one or more digits and
      dots\<close>
  "version_in_parens t =
     (case t of
        [] \<Rightarrow> None
      | c # cs \<Rightarrow>
          if c = CHR ''('' \<and> takeWhile is_version_char cs \<noteq> []
             \<and> take 1 (dropWhile is_version_char cs) = '')''
          then Some (takeWhile is_version_char cs) else None)"

definition is_version_suffix :: "string \<Rightarrow> bool" where
  \<comment> \<open>white space or none, then a version in parentheses, then white space or none, then
      the end\<close>
  "is_version_suffix t \<longleftrightarrow>
     (case version_in_parens (dropWhile is_ws t) of
        None \<Rightarrow> False
      | Some v \<Rightarrow> list_all is_ws (drop (length v + 2) (dropWhile is_ws t)))"

definition version_after_OS :: "string \<Rightarrow> string option" where
  \<comment> \<open>the version \<open>v\<close> when the string starts with \<open>OS:v\<close>, \<open>OS\<close> in any case and \<open>v\<close> the
      longest run of digits and dots, not empty\<close>
  "version_after_OS t =
     (if map canonicalize (take 3 t) = ''OS:'' \<and> takeWhile is_version_char (drop 3 t) \<noteq> []
      then Some (takeWhile is_version_char (drop 3 t)) else None)"

definition stated_modelName :: "string \<Rightarrow> string" where
  "stated_modelName n = before_first is_version_suffix (before_first is_simulator_suffix n)"

definition stated_osVersion :: "DeviceInfo \<Rightarrow> string" where
  "stated_osVersion s =
     (case osVersion s of
        Some (c # cs) \<Rightarrow> c # cs
      | _ \<Rightarrow>
        (let v = (case first_found version_after_OS (dev_id s) of Some v \<Rightarrow> v | None \<Rightarrow> ''0'')
         in if v = ''0''
            then (case first_found version_in_parens (dev_name s) of
                    Some w \<Rightarrow> w
                  | None \<Rightarrow> ''0'')
            else v))"

fun decimal_parts :: "nat \<Rightarrow> string \<Rightarrow> nat list" where
  \<comment> \<open>the numbers between the dots of a version, read digit by digit from the left; \<open>n\<close> is
      the number read since the last dot\<close>
  "decimal_parts n [] = [n]"
| "decimal_parts n (c # cs) =
     (if c = CHR ''.'' then n # decimal_parts 0 cs
      else decimal_parts (10 * n + (of_char c - 48)) cs)"

text \<open>Where the matcher stands after \<open>k\<close> characters, and how far a class of characters runs.\<close>

definition advance_by :: "nat \<Rightarrow> mstate \<Rightarrow> mstate" where
  "advance_by k s = s\<lparr>pos := pos s + k, rest := drop k (rest s)\<rparr>"

definition run_length :: "bool \<Rightarrow> atom \<Rightarrow> string \<Rightarrow> nat" where
  "run_length icase a t = length (takeWhile (atom_ok icase a) t)"

section \<open>Properties of the Android parser\<close>

lemma split_line: "sep \<notin> set l \<Longrightarrow> split sep (l @ sep # r) = l # split sep r"
  by (induction l) (auto simp: Let_def)

lemma split_single: "sep \<notin> set l \<Longrightarrow> split sep l = [l]"
  by (induction l) (auto simp: Let_def)

lemma avd_line_category: "d \<in> set (avd_line l) \<Longrightarrow> category d = Some simulators"
  by (auto simp: avd_line_def device_def split: if_splits)

lemma avd_lines_not_physical:
  "filter (\<lambda>d. category d = Some physicalDevices) (concat (map avd_line ls)) = []"
  by (induction ls) (auto simp: filter_empty_conv dest: avd_line_category)

lemma adb_line_iPhone_15:
  "adb_line ''AB12 device model:iPhone_15'' = [device ''iPhone 15'' ''AB12'' physicalDevices]"
  by code_simp

lemma adb_line_no_model:
  "adb_line ''AB12 device usb:1-1'' = [device ''Android Device'' ''AB12'' physicalDevices]"
  by code_simp

text \<open>
  C7, as stated, fails: the output \<open>AB12 device model:iPhone_15\<close> is one line, that line is
  line 0, and \<open>listDevices\<close> drops line 0 as the header.  No record is produced.
\<close>

theorem adb_single_line_yields_nothing:
  "fst (android_listDevices (Inr ''AB12 device model:iPhone_15'') (Inr [])) = []"
  by code_simp

text \<open>
  C7, amended: when the line \<open>AB12 device model:iPhone_15\<close> follows a header line, the
  output yields exactly one record of the category \<open>physicalDevices\<close>, with id \<open>AB12\<close> and
  name \<open>iPhone 15\<close> (the \<open>model:\<close> fragment with its underscores replaced by spaces); a
  device line without such a fragment gets the name \<open>Android Device\<close>.
\<close>

theorem adb_device_after_header:
  "CHR 0x0A \<notin> set header \<Longrightarrow>
   filter (\<lambda>d. category d = Some physicalDevices)
     (fst (android_listDevices (Inr (header @ CHR 0x0A # ''AB12 device model:iPhone_15'')) (Inr avds)))
     = [device ''iPhone 15'' ''AB12'' physicalDevices]
   \<and> filter (\<lambda>d. category d = Some physicalDevices)
     (fst (android_listDevices (Inr (header @ CHR 0x0A # ''AB12 device usb:1-1'')) (Inr avds)))
     = [device ''Android Device'' ''AB12'' physicalDevices]"
  by (simp add: android_listDevices_def split_line split_single adb_line_iPhone_15
        adb_line_no_model avd_lines_not_physical device_def)

text \<open>The amended C7 at the header that \<open>adb\<close> prints.\<close>

theorem adb_device_after_header_witness:
  "CHR 0x0A \<notin> set ''List of devices attached'' \<and>
   filter (\<lambda>d. category d = Some physicalDevices)
     (fst (android_listDevices
        (Inr (''List of devices attached'' @ CHR 0x0A # ''AB12 device model:iPhone_15'')) (Inr [])))
     = [device ''iPhone 15'' ''AB12'' physicalDevices]"
  using adb_device_after_header [of "''List of devices attached''" "[]"] by simp

text \<open>
  C10: the Android \<open>listDevices\<close> discards line 0 of the captured output whatever it holds.
  Replacing line 0 by the empty line, which yields no record, changes nothing in the result,
  and an output of one line gives what the empty output gives.
\<close>

theorem android_first_line_discarded:
  "CHR 0x0A \<notin> set line0 \<Longrightarrow>
   android_listDevices (Inr (line0 @ CHR 0x0A # others)) avds
     = android_listDevices (Inr (CHR 0x0A # others)) avds
   \<and> android_listDevices (Inr line0) avds = android_listDevices (Inr []) avds"
  by (simp add: android_listDevices_def split_line split_single)

text \<open>C10 at a line 0 that matches the device pattern.\<close>

theorem android_first_line_discarded_witness:
  "CHR 0x0A \<notin> set ''AB12 device model:iPhone_15''
   \<and> adb_line ''AB12 device model:iPhone_15'' \<noteq> []
   \<and> android_listDevices (Inr (''AB12 device model:iPhone_15'' @ CHR 0x0A # ''CD34 device usb:1-1'')) (Inr [])
       = android_listDevices (Inr (CHR 0x0A # ''CD34 device usb:1-1'')) (Inr [])
   \<and> android_listDevices (Inr ''AB12 device model:iPhone_15'') (Inr []) = ([], [])"
proof -
  have h: "CHR 0x0A \<notin> set ''AB12 device model:iPhone_15''" by simp
  have e: "android_listDevices (Inr []) (Inr []) = ([], [])" by code_simp
  show ?thesis
    using h android_first_line_discarded [OF h, of "''CD34 device usb:1-1''" "Inr []"] e
    by (simp add: adb_line_iPhone_15)
qed

section \<open>Numbering of the selectable devices\<close>

lemma number_from_length [simp]: "length (number_from k ds) = length ds"
  by (induction ds arbitrary: k) simp_all

lemma number_from_nth:
  "j < length ds \<Longrightarrow> dev_index (number_from k ds ! j) = Some (k + int j)"
proof (induction ds arbitrary: k j)
  case Nil
  then show ?case by simp
next
  case (Cons d ds)
  then show ?case by (cases j) simp_all
qed

lemma number_from_indices:
  "map dev_index (number_from k ds) = map (\<lambda>i. Some (k + int i)) [0..<length ds]"
  by (rule nth_equalityI) (simp_all add: number_from_nth)

lemma two_runs:
  "map (\<lambda>i. Some (1 + int i)) [0..<a] @ map (\<lambda>i. Some (1 + int a + int i)) [0..<b]
     = map (\<lambda>i. Some (int i)) [1..<Suc (a + b)]"
  by (rule nth_equalityI) (auto simp add: nth_append simp del: upt_Suc)

lemma ios_allDevices_indices:
  "map dev_index (ios_allDevices cd)
     = map (\<lambda>i. Some (int i)) [1..<Suc (length (physical cd) + length (filter is_iphone (sims cd)))]"
  by (simp add: ios_allDevices_def number_from_indices two_runs del: upt_Suc)

lemma shown_indices_append [simp]: "shown_indices (xs @ ys) = shown_indices xs @ shown_indices ys"
  by (simp add: shown_indices_def)

lemma shown_indices_Cons: "shown_indices (e # es) = shown_index e @ shown_indices es"
  by (simp add: shown_indices_def)

lemma shown_indices_Nil [simp]: "shown_indices [] = []"
  by (simp add: shown_indices_def)

lemma shown_indices_numbered:
  "shown_indices (map numbered_line ds) = map dev_index ds"
  by (induction ds) (simp_all add: shown_indices_Cons numbered_line_def)

lemma shown_indices_unavailable:
  "shown_indices (map (\<lambda>d. Unavailable (dev_name d) (dev_id d)) ds) = []"
  by (induction ds) (simp_all add: shown_indices_Cons)

lemma ios_display_indices:
  "shown_indices (ios_display cd) = map dev_index (ios_allDevices cd)"
  by (simp add: ios_display_def ios_allDevices_def shown_indices_Cons shown_indices_numbered
      shown_indices_unavailable)

lemma shown_enumerate_physical:
  "shown_indices (map (\<lambda>(index, d). Selectable (Some (int index + 1)) (dev_name d) (dev_id d))
      (enumerate k ds)) = map (\<lambda>i. Some (1 + int k + int i)) [0..<length ds]"
proof (induction ds arbitrary: k)
  case Nil
  then show ?case by simp
next
  case (Cons d ds)
  have "[0..<length (d # ds)] = 0 # map Suc [0..<length ds]"
    by (simp add: upt_conv_Cons map_Suc_upt del: upt_Suc)
  then show ?case
    using Cons [of "Suc k"] by (simp add: shown_indices_Cons comp_def del: upt_Suc)
qed

lemma shown_enumerate_emulator:
  "shown_indices (map (\<lambda>(index, d). SelectableEmulator (int a + int index + 1) (dev_name d))
      (enumerate k ds)) = map (\<lambda>i. Some (1 + int a + int k + int i)) [0..<length ds]"
proof (induction ds arbitrary: k)
  case Nil
  then show ?case by simp
next
  case (Cons d ds)
  have "[0..<length (d # ds)] = 0 # map Suc [0..<length ds]"
    by (simp add: upt_conv_Cons map_Suc_upt del: upt_Suc)
  then show ?case
    using Cons [of "Suc k"] by (simp add: shown_indices_Cons comp_def del: upt_Suc)
qed

lemma android_display_indices:
  "shown_indices (android_display devices)
     = map (\<lambda>i. Some (int i))
         [1..<Suc (length (filter (\<lambda>d. category d = Some physicalDevices) devices)
                   + length (filter (\<lambda>d. category d = Some simulators) devices))]"
proof -
  let ?ph = "filter (\<lambda>d. category d = Some physicalDevices) devices"
  let ?em = "filter (\<lambda>d. category d = Some simulators) devices"
  note P = shown_enumerate_physical [of 0 ?ph]
  note E = shown_enumerate_emulator [of "length ?ph" 0 ?em]
  note T = two_runs [of "length ?ph" "length ?em"]
  show ?thesis
    by (cases "?ph = []"; cases "?em = []")
       (use P E T in \<open>simp_all add: android_display_def Let_def shown_indices_Cons del: upt_Suc\<close>)
qed

lemma adb_line_shape:
  "adb_line l = [] \<or> (\<exists>n i. adb_line l = [device n i physicalDevices])"
proof (cases "match False deviceMatch_re l")
  case None
  then show ?thesis by (simp add: adb_line_def)
next
  case (Some m)
  then show ?thesis by (simp add: adb_line_def Let_def) blast
qed

lemma adb_line_category: "d \<in> set (adb_line l) \<Longrightarrow> category d = Some physicalDevices"
  using adb_line_shape [of l] by (auto simp: device_def)

lemma filter_all: "\<forall>x \<in> set xs. P x \<Longrightarrow> filter P xs = xs"
  by (induction xs) auto

lemma android_devices_in_display_order:
  "filter (\<lambda>d. category d = Some physicalDevices) (fst (android_listDevices adb avds))
   @ filter (\<lambda>d. category d = Some simulators) (fst (android_listDevices adb avds))
   = fst (android_listDevices adb avds)"
proof (cases adb)
  case (Inl e)
  then show ?thesis by (simp add: android_listDevices_def)
next
  case (Inr out)
  show ?thesis
  proof (cases avds)
    case (Inl e)
    with Inr show ?thesis by (simp add: android_listDevices_def)
  next
    case avd: (Inr emulators)
    let ?ph = "concat (map adb_line (tl (split CHR 0x0A out)))"
    let ?em = "concat (map avd_line (split CHR 0x0A emulators))"
    have p: "\<forall>d \<in> set ?ph. category d = Some physicalDevices"
      by (auto dest: adb_line_category)
    have e: "\<forall>d \<in> set ?em. category d = Some simulators"
      by (auto dest: avd_line_category)
    have "filter (\<lambda>d. category d = Some physicalDevices) ?ph = ?ph"
      using p by (rule filter_all)
    moreover have "filter (\<lambda>d. category d = Some simulators) ?em = ?em"
      using e by (rule filter_all)
    moreover have "filter (\<lambda>d. category d = Some physicalDevices) ?em = []"
      using e by (auto simp: filter_empty_conv)
    moreover have "filter (\<lambda>d. category d = Some simulators) ?ph = []"
      using p by (auto simp: filter_empty_conv)
    ultimately show ?thesis using Inr avd by (simp add: android_listDevices_def Let_def)
  qed
qed

text \<open>
  C6: in one rendering, the numbers given to the selectable devices are \<open>1, 2, \<dots>, n\<close>, in
  display order, the physical devices first and the simulators after them without a new
  start; this holds for the index stored with each selectable device, for the numbers
  printed on iOS and for the numbers printed on Android.  The lines of the offline devices
  carry no number, and the offline devices have no part in \<open>allDevices\<close>.  On Android the
  list of devices is the physical devices followed by the emulators, so that the number
  printed for a device is its place in the list that the selection reads.
\<close>

theorem selectable_indices_contiguous:
  "map dev_index (ios_allDevices cd)
     = map (\<lambda>i. Some (int i)) [1..<Suc (length (physical cd) + length (filter is_iphone (sims cd)))]
   \<and> shown_indices (ios_display cd)
     = map (\<lambda>i. Some (int i)) [1..<Suc (length (physical cd) + length (filter is_iphone (sims cd)))]
   \<and> shown_indices (map (\<lambda>d. Unavailable (dev_name d) (dev_id d)) (offline cd)) = []
   \<and> ios_allDevices (cd\<lparr>offline := others\<rparr>) = ios_allDevices cd
   \<and> shown_indices (android_display devices)
     = map (\<lambda>i. Some (int i))
         [1..<Suc (length (filter (\<lambda>d. category d = Some physicalDevices) devices)
                   + length (filter (\<lambda>d. category d = Some simulators) devices))]
   \<and> filter (\<lambda>d. category d = Some physicalDevices) (fst (android_listDevices adb avds))
       @ filter (\<lambda>d. category d = Some simulators) (fst (android_listDevices adb avds))
     = fst (android_listDevices adb avds)"
  using ios_allDevices_indices [of cd] ios_display_indices [of cd] android_display_indices [of devices]
    android_devices_in_display_order [of adb avds]
  by (simp add: shown_indices_unavailable del: upt_Suc) (simp add: ios_allDevices_def)


section \<open>Selection: the empty case, invalid answers and recovery\<close>

lemma number_from_index_ge:
  "d \<in> set (number_from k ds) \<Longrightarrow> \<exists>i. dev_index d = Some i \<and> k \<le> i"
  by (induction ds arbitrary: k) force+

lemma ios_allDevices_positive:
  "d \<in> set (ios_allDevices cd) \<Longrightarrow> \<exists>i. dev_index d = Some i \<and> 1 \<le> i"
  by (auto simp: ios_allDevices_def dest!: number_from_index_ge)

lemma ios_nothing_selected: "find_by_index (ios_allDevices cd) (- 1) = None"
  by (auto simp: find_by_index_def find_None_iff dest: ios_allDevices_positive)

lemma Question_not_numbered: "Question \<notin> set (map numbered_line ds)"
  by (auto simp: numbered_line_def)

lemma Question_not_in_ios_display: "Question \<notin> set (ios_display cd)"
  by (auto simp: ios_display_def numbered_line_def)

lemma Question_not_in_listing: "Question \<notin> set (snd (android_listDevices adb avds))"
  by (auto simp: android_listDevices_def Let_def split: sum.splits)

text \<open>
  C8: when no device is selectable (no physical device and no iPhone simulator on iOS,
  whatever the offline devices; no device at all on Android), \<open>selectDevice\<close> returns \<open>null\<close>
  and asks no question.
\<close>

theorem empty_selectable_set_returns_null:
  "(physical cd = [] \<and> filter is_iphone (sims cd) = [] \<longrightarrow>
      fst (ios_selectDevice cd answers) = Returned None
      \<and> Question \<notin> set (snd (ios_selectDevice cd answers)))
   \<and> (fst (android_listDevices adb avds) = [] \<longrightarrow>
      fst (android_selectDevice adb avds answers) = Returned None
      \<and> Question \<notin> set (snd (android_selectDevice adb avds answers)))"
proof (intro conjI impI)
  assume a: "physical cd = [] \<and> filter is_iphone (sims cd) = []"
  then have e: "ios_allDevices cd = []" by (simp add: ios_allDevices_def)
  show "fst (ios_selectDevice cd answers) = Returned None"
    using e by (simp add: ios_selectDevice_def)
  show "Question \<notin> set (snd (ios_selectDevice cd answers))"
    using e Question_not_in_ios_display [of cd] by (simp add: ios_selectDevice_def)
next
  assume a: "fst (android_listDevices adb avds) = []"
  show "fst (android_selectDevice adb avds answers) = Returned None"
    using a by (cases "android_listDevices adb avds") (simp add: android_selectDevice_def)
  show "Question \<notin> set (snd (android_selectDevice adb avds answers))"
    using a Question_not_in_listing [of adb avds]
    by (cases "android_listDevices adb avds") (simp add: android_selectDevice_def)
qed

text \<open>C8 on a listing with one offline device and no iPhone, and on an empty \<open>adb\<close> listing.\<close>

theorem empty_selectable_set_returns_null_witness:
  "physical only_offline = [] \<and> filter is_iphone (sims only_offline) = []
   \<and> offline only_offline \<noteq> []
   \<and> fst (ios_selectDevice only_offline [Line ''1'']) = Returned None
   \<and> Question \<notin> set (snd (ios_selectDevice only_offline [Line ''1'']))
   \<and> fst (android_listDevices (Inr ''List of devices attached'') (Inr [])) = []
   \<and> fst (android_selectDevice (Inr ''List of devices attached'') (Inr []) [Line ''1'']) = Returned None
   \<and> Question \<notin> set (snd (android_selectDevice (Inr ''List of devices attached'') (Inr []) [Line ''1'']))"
proof -
  have h1: "physical only_offline = [] \<and> filter is_iphone (sims only_offline) = []"
    by code_simp
  have h2: "fst (android_listDevices (Inr ''List of devices attached'') (Inr [])) = []"
    by code_simp
  have h3: "offline only_offline \<noteq> []"
    by (simp add: only_offline_def)
  show ?thesis
    using h1 h2 h3
      empty_selectable_set_returns_null
        [where cd = only_offline and answers = "[Line ''1'']"
           and adb = "Inr ''List of devices attached''" and avds = "Inr []"]
    by blast
qed


lemma logged_fst [simp]: "fst (logged evs r) = fst r"
  by (simp add: logged_def)

lemma logged_snd [simp]: "snd (logged evs r) = evs @ snd r"
  by (simp add: logged_def)

lemma invalid_step:
  assumes "find_by_index allDevices (- 1) = None" and "attempts < 3"
    and "invalid_answer allDevices answer"
  shows "prompt_loop allDevices (- 1) attempts (Line answer # later)
     = logged ([Question, InvalidSelection (length allDevices)]
               @ (if attempts = 2 then MaximumAttempts # redisplay allDevices else []))
         (prompt_loop allDevices (- 1) (if attempts = 2 then 0 else attempts + 1) later)"
  using assms
  by (subst prompt_loop.simps) (auto simp: attempt_def invalid_answer_def Let_def logged_def)

lemma valid_step:
  assumes "find_by_index allDevices (- 1) = None" and "attempts < 3"
    and "parseInt Radix10 (trim answer) = Some n" and "find_by_index allDevices n = Some d"
  shows "prompt_loop allDevices (- 1) attempts (Line answer # later)
     = (Returned (Some d), [Question, SelectedDevice (dev_name d)])"
proof -
  have "prompt_loop allDevices (- 1) attempts (Line answer # later)
      = logged [Question] (prompt_loop allDevices n attempts later)"
    using assms
    by (subst prompt_loop.simps) (simp add: attempt_def invalid_selection_def Let_def)
  moreover have "prompt_loop allDevices n attempts later
      = (Returned (Some d), [SelectedDevice (dev_name d)])"
    using assms by (subst prompt_loop.simps) simp
  ultimately show ?thesis by (simp add: logged_def)
qed

lemma awaiting:
  assumes "find_by_index allDevices (- 1) = None" and "attempts < 3"
  shows "prompt_loop allDevices (- 1) attempts [] = (Pending, [Question])"
  using assms by (subst prompt_loop.simps) simp

lemma invalid_answers_pending:
  assumes "find_by_index allDevices (- 1) = None"
    and "\<forall>l \<in> set ls. invalid_answer allDevices l" and "attempts < 3"
  shows "fst (prompt_loop allDevices (- 1) attempts (map Line ls)) = Pending"
  using assms(2,3)
proof (induction ls arbitrary: attempts)
  case Nil
  then show ?case using assms(1) by (simp add: awaiting)
next
  case (Cons l ls)
  have "(if attempts = 2 then 0 else attempts + 1) < 3" using Cons.prems by auto
  with Cons show ?case using assms(1) by (simp add: invalid_step)
qed

lemma invalid_answers_then_valid:
  assumes "find_by_index allDevices (- 1) = None"
    and "\<forall>l \<in> set ls. invalid_answer allDevices l" and "attempts < 3"
    and "parseInt Radix10 (trim v) = Some n" and "find_by_index allDevices n = Some d"
  shows "fst (prompt_loop allDevices (- 1) attempts (map Line ls @ [Line v])) = Returned (Some d)"
  using assms(2,3)
proof (induction ls arbitrary: attempts)
  case Nil
  then show ?case using assms(1,4,5) by (simp add: valid_step)
next
  case (Cons l ls)
  have "(if attempts = 2 then 0 else attempts + 1) < 3" using Cons.prems by auto
  with Cons show ?case using assms(1) by (simp add: invalid_step)
qed

lemma three_invalid_answers:
  assumes "find_by_index allDevices (- 1) = None"
    and "invalid_answer allDevices l1" and "invalid_answer allDevices l2"
    and "invalid_answer allDevices l3"
  shows "promptForDeviceSelection allDevices (Line l1 # Line l2 # Line l3 # later)
     = logged ([Question, InvalidSelection (length allDevices),
                Question, InvalidSelection (length allDevices),
                Question, InvalidSelection (length allDevices), MaximumAttempts]
               @ redisplay allDevices)
         (promptForDeviceSelection allDevices later)"
  using assms by (simp add: promptForDeviceSelection_def invalid_step logged_def)

lemma number_from_filter_all:
  "\<forall>d \<in> set ds. category d = Some c \<Longrightarrow>
   filter (\<lambda>d. category d = Some c) (number_from k ds) = number_from k ds"
  by (induction ds arbitrary: k) simp_all

lemma number_from_filter_none:
  "\<forall>d \<in> set ds. category d = Some c \<Longrightarrow> c \<noteq> c' \<Longrightarrow>
   filter (\<lambda>d. category d = Some c') (number_from k ds) = []"
  by (induction ds arbitrary: k) simp_all

lemma number_from_Nil_iff [simp]: "number_from k ds = [] \<longleftrightarrow> ds = []"
  by (cases ds) simp_all

lemma redisplay_numbered:
  assumes "\<forall>d \<in> set (physical cd). category d = Some physicalDevices"
    and "\<forall>d \<in> set (sims cd). category d = Some simulators"
  shows "redisplay (ios_allDevices cd)
     = [Heading ''== Devices ==''] @
       (if physical cd \<noteq> [] then map numbered_line (number_from 1 (physical cd))
        else [NoPhysicalConnected]) @
       [Heading ''== Simulators ==''] @
       map numbered_line
         (number_from (1 + int (length (physical cd))) (filter is_iphone (sims cd)))"
proof -
  have s: "\<forall>d \<in> set (filter is_iphone (sims cd)). category d = Some simulators"
    using assms(2) by simp
  show ?thesis
    using number_from_filter_all [OF assms(1), of 1]
      number_from_filter_none [OF assms(1), of simulators 1]
      number_from_filter_all [OF s, of "1 + int (length (physical cd))"]
      number_from_filter_none [OF s, of physicalDevices "1 + int (length (physical cd))"]
    by (simp add: redisplay_def ios_allDevices_def Let_def)
qed

text \<open>
  C5: in the iOS prompt, the third invalid attempt in a row sets the counter back to zero
  and prints the device list again, and the prompt goes on as it started; any number of
  invalid answers leaves the prompt asking; and a valid index after any number of invalid
  answers returns the device with that index.  When every record carries the category of
  its bucket, the list printed again is the numbered list of the physical devices and of the
  simulators.
\<close>

theorem ios_selector_recovers:
  "ios_allDevices cd \<noteq> [] \<Longrightarrow>
   invalid_answer (ios_allDevices cd) l1 \<Longrightarrow>
   invalid_answer (ios_allDevices cd) l2 \<Longrightarrow>
   invalid_answer (ios_allDevices cd) l3 \<Longrightarrow>
   \<forall>l \<in> set ls. invalid_answer (ios_allDevices cd) l \<Longrightarrow>
   parseInt Radix10 (trim v) = Some n \<Longrightarrow>
   find_by_index (ios_allDevices cd) n = Some d \<Longrightarrow>
   attempt (ios_allDevices cd) 2 l3
     = (- 1, 0, [InvalidSelection (length (ios_allDevices cd)), MaximumAttempts]
                @ redisplay (ios_allDevices cd))
   \<and> ios_selectDevice cd (Line l1 # Line l2 # Line l3 # later)
     = logged (ios_display cd
               @ [Question, InvalidSelection (length (ios_allDevices cd)),
                  Question, InvalidSelection (length (ios_allDevices cd)),
                  Question, InvalidSelection (length (ios_allDevices cd)), MaximumAttempts]
               @ redisplay (ios_allDevices cd))
         (promptForDeviceSelection (ios_allDevices cd) later)
   \<and> fst (ios_selectDevice cd (map Line ls)) = Pending
   \<and> fst (ios_selectDevice cd (map Line ls @ [Line v])) = Returned (Some d)
   \<and> ((\<forall>d \<in> set (physical cd). category d = Some physicalDevices)
        \<and> (\<forall>d \<in> set (sims cd). category d = Some simulators) \<longrightarrow>
      redisplay (ios_allDevices cd)
        = [Heading ''== Devices ==''] @
          (if physical cd \<noteq> [] then map numbered_line (number_from 1 (physical cd))
           else [NoPhysicalConnected]) @
          [Heading ''== Simulators ==''] @
          map numbered_line
            (number_from (1 + int (length (physical cd))) (filter is_iphone (sims cd))))"
  using ios_nothing_selected [of cd]
    three_invalid_answers [of "ios_allDevices cd" l1 l2 l3 later]
    invalid_answers_pending [of "ios_allDevices cd" ls 0]
    invalid_answers_then_valid [of "ios_allDevices cd" ls 0 v n d]
    redisplay_numbered [of cd]
  by (simp add: ios_selectDevice_def promptForDeviceSelection_def logged_def attempt_def
        invalid_answer_def)

text \<open>C5 on three devices: three invalid answers, then four more, then the index 2.\<close>

theorem ios_selector_recovers_witness:
  "ios_allDevices example_devices \<noteq> []
   \<and> invalid_answer (ios_allDevices example_devices) ''x''
   \<and> invalid_answer (ios_allDevices example_devices) ''7''
   \<and> invalid_answer (ios_allDevices example_devices) []
   \<and> list_all (invalid_answer (ios_allDevices example_devices)) [''a'', ''0'', ''9'', ''-1'']
   \<and> parseInt Radix10 (trim '' 2'') = Some 2
   \<and> find_by_index (ios_allDevices example_devices) 2
       = Some ((device ''iPhone 15'' ''S-1'' simulators)\<lparr>dev_index := Some 2\<rparr>)
   \<and> fst (ios_selectDevice example_devices [Line ''x'', Line ''7'', Line []]) = Pending
   \<and> fst (ios_selectDevice example_devices (map Line [''a'', ''0'', ''9'', ''-1''])) = Pending
   \<and> fst (ios_selectDevice example_devices (map Line [''a'', ''0'', ''9'', ''-1''] @ [Line '' 2'']))
       = Returned (Some ((device ''iPhone 15'' ''S-1'' simulators)\<lparr>dev_index := Some 2\<rparr>))"
proof -
  have h0: "ios_allDevices example_devices \<noteq> []" by code_simp
  have h1: "invalid_answer (ios_allDevices example_devices) ''x''" by code_simp
  have h2: "invalid_answer (ios_allDevices example_devices) ''7''" by code_simp
  have h3: "invalid_answer (ios_allDevices example_devices) []" by code_simp
  have h4: "\<forall>l \<in> set [''a'', ''0'', ''9'', ''-1'']. invalid_answer (ios_allDevices example_devices) l"
    by code_simp
  have h5: "parseInt Radix10 (trim '' 2'') = Some 2" by code_simp
  have h6: "find_by_index (ios_allDevices example_devices) 2
       = Some ((device ''iPhone 15'' ''S-1'' simulators)\<lparr>dev_index := Some 2\<rparr>)"
    by code_simp
  have p: "fst (promptForDeviceSelection (ios_allDevices example_devices) []) = Pending"
    using ios_nothing_selected [of example_devices]
    by (simp add: promptForDeviceSelection_def awaiting)
  show ?thesis
    using h0 h1 h2 h3 h4 h5 h6 p
      ios_selector_recovers [OF h0 h1 h2 h3 h4 h5 h6, of "[]"]
    by simp
qed

lemma android_default_on_invalid:
  assumes "fst (android_listDevices adb avds) \<noteq> []" and "toLowerCase answer \<noteq> ''e''"
    and "android_invalid (fst (android_listDevices adb avds)) (parseInt NoRadix answer)"
  shows "android_selectDevice adb avds (Line answer # later)
     = (Returned (Some ''emulator''),
        snd (android_listDevices adb avds)
        @ android_display (fst (android_listDevices adb avds))
        @ [Question, InvalidUsingDefault])"
  using assms
  by (cases "android_listDevices adb avds") (simp add: android_selectDevice_def android_choose_def)

text \<open>
  C2, as stated, fails on Android: the answer \<open>abc\<close> is neither an index nor the escape
  token, and \<open>selectDevice\<close> returns the default emulator after its one question.
\<close>

theorem android_invalid_answer_resolves:
  "android_selectDevice
     (Inr (''List of devices attached'' @ CHR 0x0A # ''AB12 device model:Pixel_7'')) (Inr [])
     [Line ''abc'']
   = (Returned (Some ''emulator''),
      [Heading ''== Android Devices =='', Selectable (Some 1) ''Pixel 7'' ''AB12'',
       Question, InvalidUsingDefault])"
  by code_simp

text \<open>
  C2, amended: in the iOS prompt an answer whose leading integer (\<open>parseInt\<close> of the trimmed
  answer, radix 10) is missing or is no assigned index is an invalid attempt, the error line
  is printed and the question is asked again; in the Android prompt an answer other than the
  escape token whose leading integer is missing or out of range prints the error line and
  returns the default emulator, with no second question.
\<close>

theorem invalid_answer_handling:
  "(find_by_index allDevices (- 1) = None \<and> attempts < 3 \<and> invalid_answer allDevices answer \<longrightarrow>
      prompt_loop allDevices (- 1) attempts (Line answer # later)
        = logged ([Question, InvalidSelection (length allDevices)]
                  @ (if attempts = 2 then MaximumAttempts # redisplay allDevices else []))
            (prompt_loop allDevices (- 1) (if attempts = 2 then 0 else attempts + 1) later)
      \<and> prompt_loop allDevices (- 1) attempts [Line answer]
        = (Pending,
           [Question, InvalidSelection (length allDevices)]
           @ (if attempts = 2 then MaximumAttempts # redisplay allDevices else [])
           @ [Question]))
   \<and> (ios_allDevices cd \<noteq> [] \<and> invalid_answer (ios_allDevices cd) answer \<longrightarrow>
      ios_selectDevice cd [Line answer]
        = (Pending,
           ios_display cd @ [Question, InvalidSelection (length (ios_allDevices cd)), Question]))
   \<and> (fst (android_listDevices adb avds) \<noteq> [] \<and> toLowerCase answer \<noteq> ''e''
        \<and> android_invalid (fst (android_listDevices adb avds)) (parseInt NoRadix answer) \<longrightarrow>
      android_selectDevice adb avds (Line answer # later)
        = (Returned (Some ''emulator''),
           snd (android_listDevices adb avds)
           @ android_display (fst (android_listDevices adb avds))
           @ [Question, InvalidUsingDefault]))"
proof (intro conjI impI)
  assume a: "find_by_index allDevices (- 1) = None \<and> attempts < 3
      \<and> invalid_answer allDevices answer"
  then have n: "(if attempts = 2 then 0 else attempts + 1) < 3" by auto
  show "prompt_loop allDevices (- 1) attempts (Line answer # later)
        = logged ([Question, InvalidSelection (length allDevices)]
                  @ (if attempts = 2 then MaximumAttempts # redisplay allDevices else []))
            (prompt_loop allDevices (- 1) (if attempts = 2 then 0 else attempts + 1) later)"
    using a by (simp add: invalid_step)
  show "prompt_loop allDevices (- 1) attempts [Line answer]
        = (Pending,
           [Question, InvalidSelection (length allDevices)]
           @ (if attempts = 2 then MaximumAttempts # redisplay allDevices else [])
           @ [Question])"
    using a n by (simp add: invalid_step awaiting logged_def)
next
  assume a: "ios_allDevices cd \<noteq> [] \<and> invalid_answer (ios_allDevices cd) answer"
  show "ios_selectDevice cd [Line answer]
        = (Pending,
           ios_display cd @ [Question, InvalidSelection (length (ios_allDevices cd)), Question])"
    using a ios_nothing_selected [of cd]
    by (simp add: ios_selectDevice_def promptForDeviceSelection_def invalid_step awaiting
          logged_def)
next
  assume "fst (android_listDevices adb avds) \<noteq> [] \<and> toLowerCase answer \<noteq> ''e''
        \<and> android_invalid (fst (android_listDevices adb avds)) (parseInt NoRadix answer)"
  then show "android_selectDevice adb avds (Line answer # later)
        = (Returned (Some ''emulator''),
           snd (android_listDevices adb avds)
           @ android_display (fst (android_listDevices adb avds))
           @ [Question, InvalidUsingDefault])"
    by (simp add: android_default_on_invalid)
qed

text \<open>The amended C2 at the answer \<open>four\<close>.\<close>

theorem invalid_answer_handling_witness:
  "find_by_index (ios_allDevices example_devices) (- 1) = None \<and> (2 :: nat) < 3
   \<and> invalid_answer (ios_allDevices example_devices) ''four''
   \<and> ios_allDevices example_devices \<noteq> []
   \<and> fst (android_listDevices (Inr (''List'' @ CHR 0x0A # ''AB12 device usb:1-1'')) (Inr [])) \<noteq> []
   \<and> toLowerCase ''four'' \<noteq> ''e''
   \<and> android_invalid
        (fst (android_listDevices (Inr (''List'' @ CHR 0x0A # ''AB12 device usb:1-1'')) (Inr [])))
        (parseInt NoRadix ''four'')
   \<and> ios_selectDevice example_devices [Line ''four'']
       = (Pending, ios_display example_devices @ [Question, InvalidSelection 3, Question])
   \<and> fst (android_selectDevice (Inr (''List'' @ CHR 0x0A # ''AB12 device usb:1-1'')) (Inr [])
            [Line ''four''])
       = Returned (Some ''emulator'')"
proof -
  have h1: "find_by_index (ios_allDevices example_devices) (- 1) = None" by code_simp
  have h2: "invalid_answer (ios_allDevices example_devices) ''four''" by code_simp
  have h3: "ios_allDevices example_devices \<noteq> []" by code_simp
  have h4: "fst (android_listDevices (Inr (''List'' @ CHR 0x0A # ''AB12 device usb:1-1'')) (Inr [])) \<noteq> []"
    by code_simp
  have h5: "toLowerCase ''four'' \<noteq> ''e''" by code_simp
  have h6: "android_invalid
        (fst (android_listDevices (Inr (''List'' @ CHR 0x0A # ''AB12 device usb:1-1'')) (Inr [])))
        (parseInt NoRadix ''four'')"
    by code_simp
  have h7: "length (ios_allDevices example_devices) = 3" by code_simp
  show ?thesis
    using h1 h2 h3 h4 h5 h6 h7
      invalid_answer_handling
        [where allDevices = "ios_allDevices example_devices" and attempts = 2
           and answer = "''four''" and later = "[]" and cd = example_devices
           and adb = "Inr (''List'' @ CHR 0x0A # ''AB12 device usb:1-1'')" and avds = "Inr []"]
    by simp
qed


section \<open>The order on versions and the sort\<close>

lemma part_at_drop: "part_at a i = (case drop i a of [] \<Rightarrow> 0 | x # _ \<Rightarrow> x)"
  by (auto simp: part_at_def hd_drop_conv_nth split: list.splits dest: arg_cong [where f = hd])

lemma part_at_Nil [simp]: "part_at [] i = 0"
  by (simp add: part_at_def)

lemma part_at_Cons_0 [simp]: "part_at (x # xs) 0 = x"
  by (simp add: part_at_def)

lemma part_at_Cons_Suc [simp]: "part_at (x # xs) (Suc i) = part_at xs i"
  by (simp add: part_at_def)

lemma compare_from_Cons:
  "compare_from (Suc i) (x # xs) (y # ys) = compare_from i xs ys"
proof (induction i xs ys rule: compare_from.induct)
  case (1 i a b)
  show ?case
    by (subst compare_from.simps, subst (2) compare_from.simps) (use 1 in auto)
qed

lemma compare_from_Cons_Nil:
  "compare_from (Suc i) (x # xs) [] = compare_from i xs []"
proof (induction i xs "[] :: nat list" rule: compare_from.induct)
  case (1 i a)
  show ?case
    by (subst compare_from.simps, subst (2) compare_from.simps) (use 1 in auto)
qed

lemma compare_from_Nil_Cons:
  "compare_from (Suc i) [] (y # ys) = compare_from i [] ys"
proof (induction i "[] :: nat list" ys rule: compare_from.induct)
  case (1 i b)
  show ?case
    by (subst compare_from.simps, subst (2) compare_from.simps) (use 1 in auto)
qed

lemma compare_is_version_ge: "compare_from 0 a b \<le> 0 \<longleftrightarrow> version_ge a b"
proof (induction a b rule: version_ge.induct)
  case 1
  then show ?case by (subst compare_from.simps) simp
next
  case (2 a as)
  then show ?case
    by (subst compare_from.simps) (auto simp: compare_from_Cons_Nil)
next
  case (3 b bs)
  then show ?case
    by (subst compare_from.simps) (auto simp: compare_from_Nil_Cons)
next
  case (4 a as b bs)
  then show ?case
    by (subst compare_from.simps) (auto simp: compare_from_Cons)
qed

lemma version_ge_Nil_right [simp]: "version_ge a []"
  by (induction a) auto

lemma version_ge_Nil_left: "version_ge [] b \<longleftrightarrow> (\<forall>x \<in> set b. x = 0)"
  by (induction b) auto

lemma version_ge_zeros: "\<forall>x \<in> set b. x = 0 \<Longrightarrow> version_ge a b"
  by (induction a b rule: version_ge.induct) auto

lemma version_ge_of_zeros: "\<forall>x \<in> set a. x = 0 \<Longrightarrow> version_ge a b \<Longrightarrow> \<forall>x \<in> set b. x = 0"
  by (induction a b rule: version_ge.induct) auto

lemma version_ge_refl [simp]: "version_ge a a"
  by (induction a) auto

lemma version_ge_total: "version_ge a b \<or> version_ge b a"
  by (induction a b rule: version_ge.induct) (auto simp: version_ge_Nil_left)

lemma version_ge_trans: "version_ge a b \<Longrightarrow> version_ge b c \<Longrightarrow> version_ge a c"
proof (induction a b arbitrary: c rule: version_ge.induct)
  case 1
  then show ?case by simp
next
  case (2 a as)
  then show ?case by (simp add: version_ge_Nil_left version_ge_zeros)
next
  case (3 b bs)
  then have "\<forall>x \<in> set (b # bs). x = 0" by (simp add: version_ge_Nil_left)
  with 3 have "\<forall>x \<in> set c. x = 0" using version_ge_of_zeros by blast
  then show ?case by (simp add: version_ge_Nil_left)
next
  case (4 a as b bs)
  then show ?case by (cases c) auto
qed


lemma sort_js_Cons: "sort_js cmp (x # xs) = insert_sorted cmp x (sort_js cmp xs)"
  by (simp add: sort_js_def)

lemma sort_js_Nil [simp]: "sort_js cmp [] = []"
  by (simp add: sort_js_def)

lemma insert_sorted_not_Nil [simp]: "insert_sorted cmp x ys \<noteq> []"
  by (cases ys) simp_all

lemma hd_insert_sorted:
  "hd (insert_sorted cmp x ys) = (if ys = [] \<or> cmp x (hd ys) \<le> 0 then x else hd ys)"
  by (cases ys) simp_all

lemma sort_js_Nil_iff [simp]: "sort_js cmp xs = [] \<longleftrightarrow> xs = []"
  by (cases xs) (simp_all add: sort_js_Cons)

lemma hd_sort_js_Cons:
  "hd (sort_js cmp (x # xs))
     = (if xs = [] \<or> cmp x (hd (sort_js cmp xs)) \<le> 0 then x else hd (sort_js cmp xs))"
  by (simp add: sort_js_Cons hd_insert_sorted)

lemma hd_sort_js_mem: "xs \<noteq> [] \<Longrightarrow> hd (sort_js cmp xs) \<in> set xs"
  by (induction xs) (auto simp: hd_sort_js_Cons)

lemma hd_sort_js_first:
  "xs \<noteq> [] \<Longrightarrow>
   \<exists>before after. xs = before @ hd (sort_js cmp xs) # after
      \<and> (\<forall>p \<in> set before. \<not> cmp p (hd (sort_js cmp xs)) \<le> 0)"
proof (induction xs)
  case Nil
  then show ?case by simp
next
  case (Cons x xs)
  show ?case
  proof (cases "xs = [] \<or> cmp x (hd (sort_js cmp xs)) \<le> 0")
    case True
    then have "hd (sort_js cmp (x # xs)) = x" by (simp add: hd_sort_js_Cons)
    then show ?thesis by (metis append_Nil empty_iff list.set(1))
  next
    case False
    then have h: "hd (sort_js cmp (x # xs)) = hd (sort_js cmp xs)"
      by (simp add: hd_sort_js_Cons)
    from False Cons.IH obtain before after where
      b: "xs = before @ hd (sort_js cmp xs) # after"
        "\<forall>p \<in> set before. \<not> cmp p (hd (sort_js cmp xs)) \<le> 0"
      by blast
    from b(1) have "x # xs = (x # before) @ hd (sort_js cmp xs) # after" by simp
    moreover have "\<forall>p \<in> set (x # before). \<not> cmp p (hd (sort_js cmp xs)) \<le> 0"
      using b(2) False by simp
    ultimately show ?thesis unfolding h by blast
  qed
qed

lemma hd_sort_js_max:
  assumes total: "\<And>x y. cmp x y \<le> 0 \<or> cmp y x \<le> 0"
    and trans: "\<And>x y z. cmp x y \<le> 0 \<Longrightarrow> cmp y z \<le> 0 \<Longrightarrow> cmp x z \<le> 0"
  shows "y \<in> set xs \<Longrightarrow> cmp (hd (sort_js cmp xs)) y \<le> 0"
proof (induction xs arbitrary: y)
  case Nil
  then show ?case by simp
next
  case (Cons x xs)
  show ?case
  proof (cases "xs = []")
    case True
    with Cons.prems total [of x x] show ?thesis by (simp add: hd_sort_js_Cons)
  next
    case False
    show ?thesis
    proof (cases "cmp x (hd (sort_js cmp xs)) \<le> 0")
      case True
      then have h: "hd (sort_js cmp (x # xs)) = x" by (simp add: hd_sort_js_Cons)
      show ?thesis
      proof (cases "y = x")
        case True
        then show ?thesis using total [of x x] h by simp
      next
        case False
        then have "y \<in> set xs" using Cons.prems by simp
        then have "cmp (hd (sort_js cmp xs)) y \<le> 0" by (rule Cons.IH)
        with True show ?thesis unfolding h by (rule trans)
      qed
    next
      case c: False
      then have h: "hd (sort_js cmp (x # xs)) = hd (sort_js cmp xs)"
        using False by (simp add: hd_sort_js_Cons)
      show ?thesis
      proof (cases "y = x")
        case True
        then show ?thesis using total [of x "hd (sort_js cmp xs)"] c h by simp
      next
        case False
        then have "y \<in> set xs" using Cons.prems by simp
        then show ?thesis unfolding h by (rule Cons.IH)
      qed
    qed
  qed
qed

lemma compare_osVersion_ge:
  "compare_osVersion a b \<le> 0
     \<longleftrightarrow> version_ge (version_parts (the (osVersion a))) (version_parts (the (osVersion b)))"
  by (simp add: compare_osVersion_def compare_is_version_ge)

lemma compare_osVersion_total: "compare_osVersion x y \<le> 0 \<or> compare_osVersion y x \<le> 0"
  by (simp add: compare_osVersion_ge version_ge_total)

lemma compare_osVersion_trans:
  "compare_osVersion x y \<le> 0 \<Longrightarrow> compare_osVersion y z \<le> 0 \<Longrightarrow> compare_osVersion x z \<le> 0"
  unfolding compare_osVersion_ge by (rule version_ge_trans)




lemma push_to_group_Nil [simp]: "push_to_group k d [] = []"
  by (simp add: push_to_group_def)

lemma push_to_group_Cons [simp]:
  "push_to_group k d ((k0, ds0) # g)
     = (if k0 = k then (k0, ds0 @ [d]) else (k0, ds0)) # push_to_group k d g"
  by (simp add: push_to_group_def)

lemma push_to_group_keys [simp]: "map fst (push_to_group k d g) = map fst g"
  by (induction g) auto

lemma push_to_group_mem:
  "(k', ds) \<in> set (push_to_group k d g) \<Longrightarrow>
   \<exists>ds0. (k', ds0) \<in> set g \<and> ds = (if k' = k then ds0 @ [d] else ds0)"
  by (induction g) (auto split: if_splits)

lemma group_simulator_step:
  assumes "grouped g seen" and "model_of s \<notin> set Object_prototype_keys"
  shows "\<exists>g'. group_simulator g s = Inr g' \<and> grouped g' (seen @ [s])"
proof (cases "map_of g (model_of s)")
  case None
  let ?g' = "g @ [(model_of s, [with_version s])]"
  from None have new: "model_of s \<notin> fst ` set g" by (simp add: map_of_eq_None_iff)
  then have "model_of s \<notin> model_of ` set seen"
    using assms(1) by (simp add: grouped_def)
  then have unseen: "filter (\<lambda>x. model_of x = model_of s) seen = []"
    by (metis (mono_tags, lifting) filter_False imageI)
  have run: "group_simulator g s = Inr ?g'"
    using None assms(2) by (simp add: group_simulator_def model_of_def Let_def)
  have d: "distinct (map fst ?g')"
    using assms(1) new by (simp add: grouped_def)
  have c: "ds = map with_version (filter (\<lambda>x. model_of x = k) (seen @ [s]))"
    if "(k, ds) \<in> set ?g'" for k ds
  proof (cases "(k, ds) \<in> set g")
    case True
    then have "k \<noteq> model_of s" using new by force
    moreover have "ds = map with_version (filter (\<lambda>x. model_of x = k) seen)"
      using True assms(1) by (simp add: grouped_def)
    ultimately show ?thesis by auto
  next
    case False
    with that have "k = model_of s" "ds = [with_version s]" by auto
    then show ?thesis using unseen by simp
  qed
  have k: "fst ` set ?g' = model_of ` set (seen @ [s])"
    using assms(1) by (auto simp: grouped_def)
  from d c k have "grouped ?g' (seen @ [s])" unfolding grouped_def by blast
  with run show ?thesis by blast
next
  case (Some ds0)
  let ?g' = "push_to_group (model_of s) (with_version s) g"
  from Some have mem: "(model_of s, ds0) \<in> set g" by (rule map_of_SomeD)
  have run: "group_simulator g s = Inr ?g'"
    using Some by (simp add: group_simulator_def model_of_def Let_def)
  have d: "distinct (map fst ?g')"
    using assms(1) by (simp add: grouped_def)
  have c: "ds = map with_version (filter (\<lambda>x. model_of x = k) (seen @ [s]))"
    if "(k, ds) \<in> set ?g'" for k ds
  proof -
    from that obtain ds1 where
      m: "(k, ds1) \<in> set g" and e: "ds = (if k = model_of s then ds1 @ [with_version s] else ds1)"
      using push_to_group_mem by blast
    from m assms(1) have "ds1 = map with_version (filter (\<lambda>x. model_of x = k) seen)"
      by (simp add: grouped_def)
    with e show ?thesis by auto
  qed
  have "fst ` set ?g' = fst ` set g"
    by (simp only: set_map [symmetric] push_to_group_keys)
  also have "\<dots> = model_of ` set (seen @ [s])"
    using assms(1) mem by (force simp: grouped_def)
  finally have k: "fst ` set ?g' = model_of ` set (seen @ [s])" .
  from d c k have "grouped ?g' (seen @ [s])" unfolding grouped_def by blast
  with run show ?thesis by blast
qed

lemma group_simulators_grouped:
  assumes "grouped g seen" and "\<forall>s \<in> set todo. model_of s \<notin> set Object_prototype_keys"
  shows "\<exists>g'. group_simulators g todo = Inr g' \<and> grouped g' (seen @ todo)"
  using assms
proof (induction todo arbitrary: g seen)
  case Nil
  then show ?case by simp
next
  case (Cons s todo)
  from Cons.prems obtain g1 where
    g1: "group_simulator g s = Inr g1" "grouped g1 (seen @ [s])"
    using group_simulator_step [of g seen s] by auto
  from Cons.IH [OF g1(2)] Cons.prems(2) obtain g' where
    "group_simulators g1 todo = Inr g'" "grouped g' ((seen @ [s]) @ todo)"
    by auto
  with g1(1) show ?case by simp
qed

lemma grouped_Nil: "grouped [] []"
  by (simp add: grouped_def)

lemma grouped_lookup:
  assumes "grouped g seen" and "s \<in> set seen"
  shows "map_of g (model_of s)
     = Some (map with_version (filter (\<lambda>x. model_of x = model_of s) seen))"
proof -
  from assms have "model_of s \<in> fst ` set g" by (auto simp: grouped_def)
  then obtain ds where m: "(model_of s, ds) \<in> set g" by auto
  with assms(1) have "ds = map with_version (filter (\<lambda>x. model_of x = model_of s) seen)"
    by (auto simp: grouped_def)
  moreover from assms(1) m have "map_of g (model_of s) = Some ds"
    by (simp add: grouped_def)
  ultimately show ?thesis by simp
qed

lemma Object_keys_set [simp]: "set (Object_keys g) = fst ` set g"
  by (auto simp: Object_keys_def Let_def)

lemma Object_keys_length [simp]: "length (Object_keys g) = length g"
proof -
  have "length (filter is_array_index (map fst g))
      + length (filter (\<lambda>k. \<not> is_array_index k) (map fst g)) = length (map fst g)"
    by (rule sum_length_filter_compl)
  then show ?thesis by (simp add: Object_keys_def Let_def)
qed

lemma Object_keys_distinct: "distinct (map fst g) \<Longrightarrow> distinct (Object_keys g)"
  by (auto simp: Object_keys_def Let_def)

section \<open>What a pattern can remove from a name\<close>

lemma consumes_refl [simp]: "consumes Q s s"
  by (simp add: consumes_def)

lemma consumes_trans: "consumes Q s s1 \<Longrightarrow> consumes Q s1 s2 \<Longrightarrow> consumes Q s s2"
  unfolding consumes_def
  by (elim exE conjE, rule_tac x = "u @ ua" in exI) auto

lemma consumes_caps [simp]: "consumes Q s (s'\<lparr>caps := c\<rparr>) = consumes Q s s'"
  by (simp add: consumes_def)

lemma greedy_consumes:
  assumes "\<forall>s s'. s' \<in> set (f s) \<longrightarrow> consumes Q s s'"
  shows "s' \<in> set (greedy n f s) \<Longrightarrow> consumes Q s s'"
proof (induction n arbitrary: s)
  case 0
  then show ?case by simp
next
  case (Suc n)
  then show ?case using assms by (auto intro: consumes_trans)
qed

lemma lazy_consumes:
  assumes "\<forall>s s'. s' \<in> set (f s) \<longrightarrow> consumes Q s s'"
  shows "s' \<in> set (lazy n f s) \<Longrightarrow> consumes Q s s'"
proof (induction n arbitrary: s)
  case 0
  then show ?case by simp
next
  case (Suc n)
  then show ?case using assms by (auto intro: consumes_trans)
qed

lemma matches_consumes_in:
  assumes A: "\<And>a c. a \<in> A \<Longrightarrow> atom_ok icase a c \<Longrightarrow> Q c"
  shows "set (atoms_of r) \<subseteq> A \<Longrightarrow> s' \<in> set (matches icase r s) \<Longrightarrow> consumes Q s s'"
proof (induction r arbitrary: s s')
  case (Atom a)
  then show ?case
    using A [of a] by (cases "rest s") (auto simp: consumes_def advance_def split: if_splits)
next
  case (Seq r1 r2)
  from Seq.prems(2) obtain x where
    x: "x \<in> set (matches icase r1 s)" "s' \<in> set (matches icase r2 x)"
    by auto
  from Seq.prems(1) have "set (atoms_of r1) \<subseteq> A" "set (atoms_of r2) \<subseteq> A" by auto
  then have "consumes Q s x" "consumes Q x s'"
    using x Seq.IH by blast+
  then show ?case by (rule consumes_trans)
next
  case (Star r)
  then have step: "\<forall>s s'. s' \<in> set (matches icase r s) \<longrightarrow> consumes Q s s'" by simp
  from Star.prems(2) have "s' \<in> set (greedy (length (rest s)) (matches icase r) s)" by simp
  with step show ?case by (rule greedy_consumes)
next
  case (Plus r)
  then have step: "\<forall>s s'. s' \<in> set (matches icase r s) \<longrightarrow> consumes Q s s'" by simp
  from Plus.prems(2) obtain x where
    x: "x \<in> set (matches icase r s)"
       "s' \<in> set (greedy (length (rest x)) (matches icase r) x)"
    by auto
  from step x(1) have "consumes Q s x" by blast
  moreover from step x(2) have "consumes Q x s'" by (rule greedy_consumes)
  ultimately show ?case by (rule consumes_trans)
next
  case (PlusLazy r)
  then have step: "\<forall>s s'. s' \<in> set (matches icase r s) \<longrightarrow> consumes Q s s'" by simp
  from PlusLazy.prems(2) obtain x where
    x: "x \<in> set (matches icase r s)"
       "s' \<in> set (lazy (length (rest x)) (matches icase r) x)"
    by auto
  from step x(1) have "consumes Q s x" by blast
  moreover from step x(2) have "consumes Q x s'" by (rule lazy_consumes)
  ultimately show ?case by (rule consumes_trans)
qed (auto split: if_splits)

lemma matches_consumes:
  assumes "\<forall>a \<in> set (atoms_of r). \<forall>c. atom_ok icase a c \<longrightarrow> Q c"
    and "s' \<in> set (matches icase r s)"
  shows "consumes Q s s'"
  using matches_consumes_in [of "set (atoms_of r)" icase Q r s' s] assms by blast

lemma exec_from_removes:
  assumes "\<forall>a \<in> set (atoms_of r). \<forall>c. atom_ok icase a c \<longrightarrow> Q c"
  shows "exec_from icase r i s = Some m \<Longrightarrow>
    \<exists>j u. match_start m = i + j \<and> match_end m = i + j + length u
       \<and> s = take j s @ u @ drop (j + length u) s \<and> (\<forall>c \<in> set u. Q c)"
proof (induction s arbitrary: i)
  case Nil
  show ?case
  proof (cases "matches icase r \<lparr>pos = i, rest = [], caps = []\<rparr>")
    case Nil
    with Nil.prems show ?thesis by simp
  next
    case (Cons s' ss)
    then have "consumes Q \<lparr>pos = i, rest = [], caps = []\<rparr> s'"
      using matches_consumes [OF assms] by (metis list.set_intros(1))
    with Cons Nil.prems show ?thesis by (auto simp: consumes_def)
  qed
next
  case (Cons x xs)
  show ?case
  proof (cases "matches icase r \<lparr>pos = i, rest = x # xs, caps = []\<rparr>")
    case Nil
    with Cons.prems have "exec_from icase r (Suc i) xs = Some m" by simp
    from Cons.IH [OF this] obtain j u where
      "match_start m = Suc i + j" "match_end m = Suc i + j + length u"
      "xs = take j xs @ u @ drop (j + length u) xs" "\<forall>c \<in> set u. Q c"
      by blast
    then have "match_start m = i + Suc j \<and> match_end m = i + Suc j + length u
       \<and> x # xs = take (Suc j) (x # xs) @ u @ drop (Suc j + length u) (x # xs)
       \<and> (\<forall>c \<in> set u. Q c)"
      by simp
    then show ?thesis by blast
  next
    case (Cons s' ss)
    then have "consumes Q \<lparr>pos = i, rest = x # xs, caps = []\<rparr> s'"
      using matches_consumes [OF assms] by (metis list.set_intros(1))
    then obtain u where u: "x # xs = u @ rest s'" "pos s' = i + length u" "\<forall>c \<in> set u. Q c"
      by (auto simp: consumes_def)
    from Cons Cons.prems have m: "match_start m = i" "match_end m = pos s'" by auto
    from u(1) have "drop (length u) (x # xs) = rest s'" by (metis append_eq_conv_conj)
    with u(1) have "x # xs = take 0 (x # xs) @ u @ drop (0 + length u) (x # xs)" by simp
    with m u(2,3) show ?thesis by (metis add.right_neutral)
  qed
qed

lemma replace_first_keeps:
  assumes "\<forall>a \<in> set (atoms_of r). \<forall>c. atom_ok icase a c \<longrightarrow> \<not> P c"
  shows "filter P (replace_first icase r [] s) = filter P s"
proof (cases "match icase r s")
  case None
  then show ?thesis by (simp add: replace_first_def)
next
  case (Some m)
  then have "exec_from icase r 0 s = Some m" by (simp add: match_def)
  from exec_from_removes [of r icase "\<lambda>c. \<not> P c", OF assms this] obtain j u where
    ju: "match_start m = j" "match_end m = j + length u"
      "s = take j s @ u @ drop (j + length u) s" "\<forall>c \<in> set u. \<not> P c"
    by auto
  from ju(4) have "filter P u = []" by (simp add: filter_empty_conv)
  then have "filter P (take j s @ u @ drop (j + length u) s)
      = filter P (take j s @ drop (j + length u) s)"
    by simp
  with ju(3) have "filter P s = filter P (take j s @ drop (j + length u) s)" by simp
  with Some ju(1,2) show ?thesis by (simp add: replace_first_def)
qed

lemma toLowerCase_char_inverse:
  assumes "toLowerCase_char c = d" and "(of_char d :: nat) = k" and "97 \<le> k" and "k \<le> 122"
  shows "(of_char c :: nat) = k \<or> (of_char c :: nat) = k - 32"
proof -
  define n where "n = (of_char c :: nat)"
  define up where "up \<longleftrightarrow> (65 \<le> n \<and> n \<le> 90) \<or> (192 \<le> n \<and> n \<le> 222 \<and> n \<noteq> 215)"
  have e: "toLowerCase_char c = (if up then char_of (n + 32) else c)"
    by (simp add: toLowerCase_char_def Let_def n_def up_def)
  show ?thesis
  proof (cases up)
    case True
    with e assms(1) have "d = char_of (n + 32)" by simp
    with assms(2) have "k = (n + 32) mod 256" by simp
    moreover from True have "n + 32 < 256" by (auto simp: up_def)
    ultimately show ?thesis by (simp add: n_def)
  next
    case False
    with e assms(1) have "d = c" by simp
    with assms(2) show ?thesis by simp
  qed
qed

lemma ph_char_cases:
  assumes "ph_char c"
  shows "c \<in> set ''pPhH''"
proof -
  from assms consider "toLowerCase_char c = CHR ''p''" | "toLowerCase_char c = CHR ''h''"
    by (auto simp: ph_char_def)
  then show ?thesis
  proof cases
    case 1
    from toLowerCase_char_inverse [OF 1, of 112]
    have "(of_char c :: nat) = of_char CHR ''p'' \<or> (of_char c :: nat) = of_char CHR ''P''"
      by simp
    then show ?thesis by (simp only: of_char_eq_iff) auto
  next
    case 2
    from toLowerCase_char_inverse [OF 2, of 104]
    have "(of_char c :: nat) = of_char CHR ''h'' \<or> (of_char c :: nat) = of_char CHR ''H''"
      by simp
    then show ?thesis by (simp only: of_char_eq_iff) auto
  qed
qed

lemma simulator_suffix_never_ph:
  "\<forall>c \<in> set ''pPhH''. \<forall>a \<in> set (atoms_of simulator_suffix_re). \<not> atom_ok True a c"
  by code_simp

lemma version_suffix_never_ph:
  "\<forall>c \<in> set ''pPhH''. \<forall>a \<in> set (atoms_of version_suffix_re). \<not> atom_ok False a c"
  by code_simp

lemma simulator_suffix_atoms:
  "\<forall>a \<in> set (atoms_of simulator_suffix_re). \<forall>c. atom_ok True a c \<longrightarrow> \<not> ph_char c"
  using simulator_suffix_never_ph ph_char_cases by blast

lemma version_suffix_atoms:
  "\<forall>a \<in> set (atoms_of version_suffix_re). \<forall>c. atom_ok False a c \<longrightarrow> \<not> ph_char c"
  using version_suffix_never_ph ph_char_cases by blast

lemma extract_modelName_keeps: "filter ph_char (extract_modelName n) = filter ph_char n"
  by (simp add: extract_modelName_def replace_first_keeps simulator_suffix_atoms
        version_suffix_atoms)

lemma startsWith_iff: "startsWith s t \<longleftrightarrow> (\<exists>v. s = t @ v)"
  by (induction s t rule: startsWith.induct) auto

lemma includes_js_iff: "includes_js s t \<longleftrightarrow> (\<exists>u v. s = u @ t @ v)"
proof (induction s)
  case Nil
  then show ?case by auto
next
  case (Cons c cs)
  show ?case
  proof
    assume "includes_js (c # cs) t"
    then consider "startsWith (c # cs) t" | "includes_js cs t" by auto
    then show "\<exists>u v. c # cs = u @ t @ v"
    proof cases
      case 1
      then obtain v where "c # cs = t @ v" by (auto simp: startsWith_iff)
      then have "c # cs = [] @ t @ v" by simp
      then show ?thesis by blast
    next
      case 2
      with Cons obtain u v where "cs = u @ t @ v" by auto
      then have "c # cs = (c # u) @ t @ v" by simp
      then show ?thesis by blast
    qed
  next
    assume "\<exists>u v. c # cs = u @ t @ v"
    then obtain u v where uv: "c # cs = u @ t @ v" by blast
    show "includes_js (c # cs) t"
    proof (cases u)
      case Nil
      with uv have "startsWith (c # cs) t" by (auto simp: startsWith_iff)
      then show ?thesis by simp
    next
      case (Cons a u')
      with uv have "cs = u' @ t @ v" by simp
      with Cons.IH have "includes_js cs t" by blast
      then show ?thesis by simp
    qed
  qed
qed

lemma toLowerCase_filter_ph:
  "toLowerCase (filter ph_char n)
     = filter (\<lambda>c. c = CHR ''p'' \<or> c = CHR ''h'') (toLowerCase n)"
  by (simp add: toLowerCase_def filter_map comp_def ph_char_def [abs_def])

lemma iphone_has_ph:
  assumes "includes_js (toLowerCase n) ''iphone''"
  shows "includes_js (toLowerCase (filter ph_char n)) ''ph''"
proof -
  from assms obtain u v where "toLowerCase n = u @ ''iphone'' @ v"
    by (auto simp: includes_js_iff)
  then have "toLowerCase (filter ph_char n)
      = filter (\<lambda>c. c = CHR ''p'' \<or> c = CHR ''h'') u @ ''ph''
        @ filter (\<lambda>c. c = CHR ''p'' \<or> c = CHR ''h'') v"
    by (simp add: toLowerCase_filter_ph)
  then show ?thesis unfolding includes_js_iff by blast
qed

lemma prototype_keys_no_ph:
  "\<forall>k \<in> set Object_prototype_keys. \<not> includes_js (toLowerCase (filter ph_char k)) ''ph''"
  by code_simp

lemma iphone_not_prototype_key:
  assumes "is_iphone s"
  shows "extract_modelName (dev_name s) \<notin> set Object_prototype_keys"
proof
  assume k: "extract_modelName (dev_name s) \<in> set Object_prototype_keys"
  from assms have "includes_js (toLowerCase (filter ph_char (dev_name s))) ''ph''"
    by (simp add: is_iphone_def iphone_has_ph)
  then have "includes_js (toLowerCase (filter ph_char (extract_modelName (dev_name s)))) ''ph''"
    by (simp add: extract_modelName_keeps)
  with k prototype_keys_no_ph show False by blast
qed

section \<open>The patterns of the filter, read directly\<close>

text \<open>
  The two replacements and the two searches of the filter are run by the matcher; the
  lemmas of this section follow the matcher through the four patterns and show that the
  model name and the version it computes are the ones defined directly on the strings.
\<close>

lemma advance_by_0 [simp]: "advance_by 0 s = s"
  by (simp add: advance_by_def)

lemma advance_by_advance: "rest s \<noteq> [] \<Longrightarrow> advance_by k (advance s) = advance_by (Suc k) s"
  by (cases "rest s") (simp_all add: advance_by_def advance_def drop_Suc)

lemma rev_upt_Suc: "rev [0..<Suc (Suc m)] = map Suc (rev [0..<Suc m]) @ [0]"
proof -
  have "[0..<Suc (Suc m)] = 0 # map Suc [0..<Suc m]"
    by (simp only: map_Suc_upt upt_conv_Cons [of 0 "Suc (Suc m)"])
  then show ?thesis by (simp only: rev.simps rev_map)
qed

lemma greedy_atom:
  "length (rest s) \<le> n \<Longrightarrow>
   greedy n (matches icase (Atom a)) s
     = map (\<lambda>k. advance_by k s) (rev [0..<Suc (run_length icase a (rest s))])"
proof (induction n arbitrary: s)
  case 0
  then show ?case by (simp add: run_length_def)
next
  case (Suc n)
  show ?case
  proof (cases "rest s")
    case Nil
    then show ?thesis by (simp add: run_length_def)
  next
    case (Cons x xs)
    show ?thesis
    proof (cases "atom_ok icase a x")
      case False
      with Cons show ?thesis by (simp add: run_length_def)
    next
      case True
      from Cons Suc.prems have l: "length (rest (advance s)) \<le> n" by (simp add: advance_def)
      from Cons have p: "progress s (advance s)" by (simp add: progress_def advance_def)
      from Cons True have r: "run_length icase a (rest s) = Suc (run_length icase a (rest (advance s)))"
        by (simp add: run_length_def advance_def)
      from Cons have ne: "rest s \<noteq> []" by simp
      have "greedy (Suc n) (matches icase (Atom a)) s
          = greedy n (matches icase (Atom a)) (advance s) @ [s]"
        using Cons True p by simp
      also have "\<dots> = map (\<lambda>k. advance_by k (advance s)) (rev [0..<Suc (run_length icase a (rest (advance s)))]) @ [s]"
        by (simp only: Suc.IH [OF l])
      also have "\<dots> = map (\<lambda>k. advance_by k s) (rev [0..<Suc (run_length icase a (rest s))])"
        by (simp only: r rev_upt_Suc advance_by_advance [OF ne] map_append map_map comp_def) simp
      finally show ?thesis .
    qed
  qed
qed

lemma advance_by_rest [simp]: "rest (advance_by k s) = drop k (rest s)"
  by (simp add: advance_by_def)

lemma advance_by_pos [simp]: "pos (advance_by k s) = pos s + k"
  by (simp add: advance_by_def)

lemma advance_by_caps [simp]: "caps (advance_by k s) = caps s"
  by (simp add: advance_by_def)

lemma matches_star_atom:
  "matches icase (Star (Atom a)) s = map (\<lambda>k. advance_by k s) (rev [0..<Suc (run_length icase a (rest s))])"
  by (simp only: matches.simps greedy_atom [OF order_refl])

lemma matches_plus_atom:
  "matches icase (Plus (Atom a)) s = map (\<lambda>k. advance_by k s) (rev [1..<Suc (run_length icase a (rest s))])"
proof (cases "rest s")
  case Nil
  then show ?thesis by (simp add: run_length_def)
next
  case (Cons x xs)
  show ?thesis
  proof (cases "atom_ok icase a x")
    case False
    with Cons show ?thesis by (simp add: run_length_def)
  next
    case True
    from Cons have ne: "rest s \<noteq> []" by simp
    from Cons True have r: "run_length icase a (rest s) = Suc (run_length icase a (rest (advance s)))"
      by (simp add: run_length_def advance_def)
    have "matches icase (Plus (Atom a)) s
        = greedy (length (rest (advance s))) (matches icase (Atom a)) (advance s)"
      using Cons True by simp
    also have "\<dots> = map (\<lambda>k. advance_by k (advance s)) (rev [0..<Suc (run_length icase a (rest (advance s)))])"
      by (rule greedy_atom) simp
    also have "\<dots> = map (\<lambda>k. advance_by k s) (rev (map Suc [0..<Suc (run_length icase a (rest (advance s)))]))"
      by (simp only: advance_by_advance [OF ne] rev_map map_map comp_def)
    also have "\<dots> = map (\<lambda>k. advance_by k s) (rev [1..<Suc (run_length icase a (rest s))])"
      by (simp only: r map_Suc_upt One_nat_def)
    finally show ?thesis .
  qed
qed

lemma concat_map_empty: "(\<And>x. x \<in> set xs \<Longrightarrow> f x = []) \<Longrightarrow> concat (map f xs) = []"
  by (induction xs) auto

lemma run_length_nth: "k < run_length icase a t \<Longrightarrow> atom_ok icase a (t ! k) \<and> k < length t"
  unfolding run_length_def
  by (metis length_takeWhile_le less_le_trans nth_mem set_takeWhileD takeWhile_nth)

lemma blocked_before:
  assumes b: "\<And>s x xs. rest s = x # xs \<Longrightarrow> atom_ok icase a x \<Longrightarrow> f s = []"
    and k: "k < run_length icase a (rest s)" and r: "rest s' = drop k (rest s)"
  shows "f s' = []"
proof -
  from run_length_nth [OF k] have "atom_ok icase a (rest s ! k)" "k < length (rest s)" by simp_all
  then have "rest s' = (rest s ! k) # drop (Suc k) (rest s)"
    using r by (simp add: Cons_nth_drop_Suc)
  with b \<open>atom_ok icase a (rest s ! k)\<close> show ?thesis by blast
qed

lemma concat_rev_upt:
  assumes "\<And>k. j \<le> k \<Longrightarrow> k < m \<Longrightarrow> g k = []" and "j \<le> m"
  shows "concat (map g (rev [j..<Suc m])) = g m"
proof -
  have "concat (map g (rev [j..<m])) = []"
    using assms(1) by (intro concat_map_empty) auto
  with assms(2) show ?thesis by simp
qed

lemma seq_star_blocked:
  assumes "\<And>s x xs. rest s = x # xs \<Longrightarrow> atom_ok icase a x \<Longrightarrow> matches icase r s = []"
  shows "matches icase (Seq (Star (Atom a)) r) s = matches icase r (advance_by (run_length icase a (rest s)) s)"
proof -
  let ?m = "run_length icase a (rest s)"
  have "concat (map (\<lambda>k. matches icase r (advance_by k s)) (rev [0..<Suc ?m]))
      = matches icase r (advance_by ?m s)"
    by (rule concat_rev_upt)
       (auto intro: blocked_before [of icase a "matches icase r", OF assms])
  then show ?thesis
    by (simp only: matches.simps(3) matches_star_atom map_map comp_def)
qed

lemma seq_plus_blocked:
  assumes "\<And>s x xs. rest s = x # xs \<Longrightarrow> atom_ok icase a x \<Longrightarrow> matches icase r s = []"
  shows "matches icase (Seq (Plus (Atom a)) r) s
     = (if run_length icase a (rest s) = 0 then [] else matches icase r (advance_by (run_length icase a (rest s)) s))"
proof (cases "run_length icase a (rest s) = 0")
  case True
  then show ?thesis by (simp add: matches_plus_atom del: matches.simps(6))
next
  case False
  let ?m = "run_length icase a (rest s)"
  have "concat (map (\<lambda>k. matches icase r (advance_by k s)) (rev [1..<Suc ?m]))
      = matches icase r (advance_by ?m s)"
    using False
    by (intro concat_rev_upt)
       (auto intro: blocked_before [of icase a "matches icase r", OF assms])
  with False show ?thesis
    by (simp only: matches.simps(3) matches_plus_atom map_map comp_def if_False)
qed

lemma seq_group_plus_blocked:
  assumes "\<And>s x xs. rest s = x # xs \<Longrightarrow> atom_ok icase a x \<Longrightarrow> matches icase r s = []"
  shows "matches icase (Seq (Group n (Plus (Atom a))) r) s
     = (if run_length icase a (rest s) = 0 then []
        else matches icase r
               ((advance_by (run_length icase a (rest s)) s)
                  \<lparr>caps := (n, take (run_length icase a (rest s)) (rest s)) # caps s\<rparr>))"
proof (cases "run_length icase a (rest s) = 0")
  case True
  then show ?thesis by (simp add: matches_plus_atom del: matches.simps(6))
next
  case False
  let ?m = "run_length icase a (rest s)"
  let ?g = "\<lambda>k. matches icase r ((advance_by k s)\<lparr>caps := (n, take k (rest s)) # caps s\<rparr>)"
  have "concat (map ?g (rev [1..<Suc ?m])) = ?g ?m"
    using False
    by (intro concat_rev_upt)
       (auto intro: blocked_before [of icase a "matches icase r", OF assms])
  moreover have "matches icase (Seq (Group n (Plus (Atom a))) r) s
      = concat (map ?g (rev [1..<Suc ?m]))"
    by (simp add: matches_plus_atom map_map comp_def del: matches.simps(6) upt_Suc)
  ultimately show ?thesis using False by simp
qed

lemma lit_Cons: "lit (c # cs) = Seq (Atom (Lit c)) (lit cs)"
  by (simp add: lit_def seqs_def)

lemma lit_Nil: "lit [] = Eps"
  by (simp add: lit_def seqs_def)

lemma matches_lit:
  "matches True (lit cs) s
     = (if map canonicalize (take (length cs) (rest s)) = map canonicalize cs
        then [advance_by (length cs) s] else [])"
proof (induction cs arbitrary: s)
  case Nil
  then show ?case by (simp add: lit_Nil)
next
  case (Cons c cs)
  show ?case
  proof (cases "rest s")
    case Nil
    then show ?thesis by (simp add: lit_Cons)
  next
    case (Cons x xs)
    then have ne: "rest s \<noteq> []" by simp
    from Cons have r: "rest (advance s) = xs" by (simp add: advance_def)
    show ?thesis
      using Cons by (simp add: lit_Cons Cons.IH r advance_by_advance [OF ne])
  qed
qed

lemma seq_Eps: "matches icase (Seq r Eps) s = matches icase r s"
proof -
  have "matches icase Eps = (\<lambda>s. [s])" by (rule ext) simp
  then show ?thesis by simp
qed

lemma ws_not_paren: "is_ws x \<Longrightarrow> \<not> atom_ok icase (Lit CHR ''('') x"
  by (auto simp: is_ws_def whitespace_chars_def canonicalize_def Let_def)

lemma version_char_not_paren: "is_version_char x \<Longrightarrow> \<not> atom_ok icase (Lit CHR '')'') x"
  by (auto simp: is_version_char_def is_digit_def canonicalize_def Let_def)

lemma ws_not_S: "is_ws x \<Longrightarrow> canonicalize x \<noteq> CHR ''S''"
  by (auto simp: is_ws_def whitespace_chars_def canonicalize_def Let_def)

lemma run_length_take: "take (run_length icase a t) t = takeWhile (atom_ok icase a) t"
  by (simp add: run_length_def takeWhile_eq_take [symmetric])

lemma run_length_drop: "drop (run_length icase a t) t = dropWhile (atom_ok icase a) t"
  by (simp add: run_length_def dropWhile_eq_drop [symmetric])

lemma run_length_0: "run_length icase a t = 0 \<longleftrightarrow> takeWhile (atom_ok icase a) t = []"
  by (simp add: run_length_def)

lemma atom_ok_Space [simp]: "atom_ok icase Space = is_ws"
  by (rule ext) simp

lemma atom_ok_VersionChar [simp]: "atom_ok icase VersionChar = is_version_char"
  by (rule ext) simp

lemma whole_by_prefix:
  "(map f (take (length ys) d) = ys \<and> drop (length ys) d = []) \<longleftrightarrow> map f d = ys"
  by (metis append_Nil2 append_take_drop_id drop_all length_map order_refl take_all)

lemma canonicalize_Simulator: "map canonicalize ''Simulator'' = ''SIMULATOR''"
  by code_simp

lemma matches_lit_Simulator:
  "matches True (lit ''Simulator'') s
     = (if map canonicalize (take (length ''SIMULATOR'') (rest s)) = ''SIMULATOR''
        then [advance_by (length ''SIMULATOR'') s] else [])"
  using matches_lit [of "''Simulator''" s] by (simp only: canonicalize_Simulator) simp

lemma simulator_match:
  "(matches True simulator_suffix_re s \<noteq> []) = is_simulator_suffix (rest s)"
proof -
  let ?r = "Seq (lit ''Simulator'') (Seq Eol Eps)"
  have b: "matches True ?r s = []" if "rest s = x # xs" "atom_ok True Space x" for s x xs
    using that ws_not_S [of x] by (auto simp add: matches_lit_Simulator)
  have r: "matches True ?r s1 \<noteq> [] \<longleftrightarrow> map canonicalize (rest s1) = ''SIMULATOR''" for s1
    using whole_by_prefix [of canonicalize "''SIMULATOR''" "rest s1"]
    by (simp add: matches_lit_Simulator del: length_Cons list.size)
  have "matches True simulator_suffix_re s = matches True (Seq (Plus (Atom Space)) ?r) s"
    by (simp add: simulator_suffix_re_def seqs_def)
  also have "\<dots> = (if run_length True Space (rest s) = 0 then []
       else matches True ?r (advance_by (run_length True Space (rest s)) s))"
    by (rule seq_plus_blocked) (rule b)
  finally show ?thesis
    using r [of "advance_by (run_length True Space (rest s)) s"]
    by (simp add: is_simulator_suffix_def run_length_0 run_length_drop del: matches.simps)
qed

lemma seq_atom:
  "matches icase (Seq (Atom a) r) s
     = (case rest s of
          [] \<Rightarrow> []
        | x # xs \<Rightarrow> if atom_ok icase a x then matches icase r (advance s) else [])"
  by (cases "rest s") simp_all

lemma version_match:
  "(matches False version_suffix_re s \<noteq> []) = is_version_suffix (rest s)"
proof -
  let ?r3 = "Seq (Star (Atom Space)) (Seq Eol Eps)"
  let ?r2 = "Seq (Atom (Lit CHR '')'')) ?r3"
  let ?r1 = "Seq (Plus (Atom VersionChar)) ?r2"
  let ?r0 = "Seq (Atom (Lit CHR ''('')) ?r1"
  have e3: "matches False ?r3 s \<noteq> [] \<longleftrightarrow> list_all is_ws (rest s)" for s
  proof -
    have a: "matches False ?r3 s = matches False (Seq Eol Eps) (advance_by (run_length False Space (rest s)) s)"
      by (rule seq_star_blocked) simp
    have b: "matches False (Seq Eol Eps) x \<noteq> [] \<longleftrightarrow> rest x = []" for x
      by simp
    show ?thesis unfolding a b by (simp add: run_length_drop list_all_iff)
  qed
  have e2: "matches False ?r2 s \<noteq> []
      \<longleftrightarrow> take 1 (rest s) = '')'' \<and> list_all is_ws (drop 1 (rest s))" for s
  proof (cases "rest s")
    case Nil
    then show ?thesis by simp
  next
    case (Cons x xs)
    then have "rest (advance s) = xs" by (simp add: advance_def)
    with Cons e3 [of "advance s"] show ?thesis by (simp del: matches.simps(5))
  qed
  have e1: "matches False ?r1 s \<noteq> []
      \<longleftrightarrow> takeWhile is_version_char (rest s) \<noteq> []
          \<and> take 1 (dropWhile is_version_char (rest s)) = '')''
          \<and> list_all is_ws (drop 1 (dropWhile is_version_char (rest s)))" for s
  proof -
    have "matches False ?r1 s
        = (if run_length False VersionChar (rest s) = 0 then []
           else matches False ?r2 (advance_by (run_length False VersionChar (rest s)) s))"
      by (rule seq_plus_blocked) (simp add: version_char_not_paren [of _ False, simplified])
    then show ?thesis
      using e2 [of "advance_by (run_length False VersionChar (rest s)) s"]
      by (simp add: run_length_0 run_length_drop del: matches.simps)
  qed
  have e0: "matches False ?r0 s \<noteq> []
      \<longleftrightarrow> (case version_in_parens (rest s) of
             None \<Rightarrow> False
           | Some v \<Rightarrow> list_all is_ws (drop (length v + 2) (rest s)))" for s
  proof (cases "rest s")
    case Nil
    then show ?thesis by (simp add: version_in_parens_def)
  next
    case (Cons x xs)
    then have r: "rest (advance s) = xs" by (simp add: advance_def)
    have d: "drop (length (takeWhile is_version_char xs)) xs = dropWhile is_version_char xs"
      by (simp add: dropWhile_eq_drop [symmetric])
    have "drop (Suc (length (takeWhile is_version_char xs))) xs
        = drop 1 (dropWhile is_version_char xs)"
      by (simp add: d [symmetric])
    moreover have "matches False ?r0 s
        = (if x = CHR ''('' then matches False ?r1 (advance s) else [])"
      by (subst seq_atom) (simp add: Cons)
    ultimately show ?thesis
      using Cons r e1 [of "advance s"]
      by (auto simp add: version_in_parens_def simp del: matches.simps)
  qed
  have "matches False version_suffix_re s = matches False (Seq (Star (Atom Space)) ?r0) s"
    by (simp add: version_suffix_re_def seqs_def)
  also have "\<dots> = matches False ?r0 (advance_by (run_length False Space (rest s)) s)"
    by (rule seq_star_blocked) (simp add: ws_not_paren [of _ False, simplified])
  finally show ?thesis
    using e0 [of "advance_by (run_length False Space (rest s)) s"]
    by (simp add: is_version_suffix_def run_length_drop del: matches.simps
          cong: option.case_cong)
qed

lemma seq_end:
  assumes "s' \<in> set (matches icase (Seq r1 r2) s)"
    and "\<And>x. s' \<in> set (matches icase r2 x) \<Longrightarrow> rest s' = []"
  shows "rest s' = []"
  using assms by auto

lemma eol_end: "s' \<in> set (matches icase (Seq Eol Eps) x) \<Longrightarrow> rest s' = []"
  by (cases "rest x = []") simp_all

lemma simulator_end: "s' \<in> set (matches True simulator_suffix_re s) \<Longrightarrow> rest s' = []"
  unfolding simulator_suffix_re_def seqs_def foldr.simps o_apply id_apply
  by (erule seq_end, erule seq_end, erule eol_end)

lemma version_end: "s' \<in> set (matches False version_suffix_re s) \<Longrightarrow> rest s' = []"
  unfolding version_suffix_re_def seqs_def foldr.simps o_apply id_apply
  by (erule seq_end, erule seq_end, erule seq_end, erule seq_end, erule seq_end, erule eol_end)

lemma matches_to_end:
  assumes "s' \<in> set (matches icase r s)" and "rest s' = []"
  shows "pos s' = pos s + length (rest s)"
proof -
  have "consumes (\<lambda>c. True) s s'"
    by (rule matches_consumes [OF _ assms(1)]) simp
  with assms(2) show ?thesis by (auto simp: consumes_def)
qed

lemma exec_from_cut:
  assumes P: "\<forall>i t. (matches icase r \<lparr>pos = i, rest = t, caps = []\<rparr> \<noteq> []) = P t"
    and E: "\<forall>s s'. s' \<in> set (matches icase r s) \<longrightarrow> rest s' = []"
  shows "case exec_from icase r i t of
           None \<Rightarrow> before_first P t = t
         | Some m \<Rightarrow> i \<le> match_start m \<and> match_end m = i + length t
                    \<and> take (match_start m - i) t = before_first P t"
proof (induction t arbitrary: i)
  case Nil
  show ?case
  proof (cases "matches icase r \<lparr>pos = i, rest = [], caps = []\<rparr>")
    case Nil
    then show ?thesis by simp
  next
    case (Cons s' ss)
    then have in_set: "s' \<in> set (matches icase r \<lparr>pos = i, rest = [], caps = []\<rparr>)" by simp
    with E have "rest s' = []" by blast
    from matches_to_end [OF in_set this] Cons show ?thesis by simp
  qed
next
  case (Cons c cs)
  show ?case
  proof (cases "matches icase r \<lparr>pos = i, rest = c # cs, caps = []\<rparr>")
    case Nil
    with P have np: "\<not> P (c # cs)" by blast
    from Nil have e: "exec_from icase r i (c # cs) = exec_from icase r (Suc i) cs" by simp
    show ?thesis
    proof (cases "exec_from icase r (Suc i) cs")
      case None
      with Cons.IH [of "Suc i"] e np show ?thesis by simp
    next
      case (Some m)
      with Cons.IH [of "Suc i"] have
        m: "Suc i \<le> match_start m" "match_end m = Suc i + length cs"
           "take (match_start m - Suc i) cs = before_first P cs"
        by simp_all
      from m(1) have "match_start m - i = Suc (match_start m - Suc i)" by simp
      with m e np Some show ?thesis by simp
    qed
  next
    case (Cons s' ss)
    with P have p: "P (c # cs)" by (metis list.distinct(1))
    from Cons have in_set: "s' \<in> set (matches icase r \<lparr>pos = i, rest = c # cs, caps = []\<rparr>)"
      by simp
    with E have "rest s' = []" by blast
    from matches_to_end [OF in_set this] Cons p show ?thesis by simp
  qed
qed

lemma replace_first_cut:
  assumes P: "\<forall>i t. (matches icase r \<lparr>pos = i, rest = t, caps = []\<rparr> \<noteq> []) = P t"
    and E: "\<forall>s s'. s' \<in> set (matches icase r s) \<longrightarrow> rest s' = []"
  shows "replace_first icase r [] n = before_first P n"
proof (cases "exec_from icase r 0 n")
  case None
  with exec_from_cut [OF P E, where i = 0 and t = n] show ?thesis
    by (simp add: replace_first_def match_def del: exec_from.simps)
next
  case (Some m)
  with exec_from_cut [OF P E, where i = 0 and t = n] show ?thesis
    by (simp add: replace_first_def match_def del: exec_from.simps)
qed

lemma strip_simulator: "replace_first True simulator_suffix_re [] n = before_first is_simulator_suffix n"
  by (rule replace_first_cut) (simp_all add: simulator_match simulator_end)

lemma strip_version: "replace_first False version_suffix_re [] n = before_first is_version_suffix n"
  by (rule replace_first_cut) (simp_all add: version_match version_end)

lemma extract_modelName_stated: "extract_modelName n = stated_modelName n"
  unfolding extract_modelName_def stated_modelName_def
  by (simp add: strip_simulator strip_version)

lemma seq_lit_Eps:
  "matches False (Seq (Atom (Lit c)) Eps) s
     = (if take 1 (rest s) = [c] then [advance s] else [])"
  by (cases "rest s") simp_all

lemma name_version_at:
  "case matches False nameOsMatch_re \<lparr>pos = i, rest = t, caps = []\<rparr> of
     [] \<Rightarrow> version_in_parens t = None
   | s' # _ \<Rightarrow> version_in_parens t = map_of (caps s') 1 \<and> version_in_parens t \<noteq> None"
proof (cases t)
  case Nil
  then show ?thesis by (simp add: nameOsMatch_re_def seqs_def version_in_parens_def)
next
  case (Cons x xs)
  let ?s = "\<lparr>pos = i, rest = t, caps = []\<rparr>"
  let ?r2 = "Seq (Atom (Lit CHR '')'')) Eps"
  let ?r1 = "Seq (Group 1 (Plus (Atom VersionChar))) ?r2"
  let ?m = "run_length False VersionChar xs"
  let ?s1 = "(advance_by ?m (advance ?s))\<lparr>caps := [(1, take ?m xs)]\<rparr>"
  have r: "rest (advance ?s) = xs" "caps (advance ?s) = []"
    using Cons by (simp_all add: advance_def)
  have e2: "matches False ?r2 ?s1
      = (if take 1 (dropWhile is_version_char xs) = '')'' then [advance ?s1] else [])"
    by (subst seq_lit_Eps) (simp add: r run_length_drop)
  have e1: "matches False ?r1 (advance ?s) = (if ?m = 0 then [] else matches False ?r2 ?s1)"
    by (subst seq_group_plus_blocked)
       (simp_all add: version_char_not_paren [of _ False, simplified] r)
  have e0: "matches False nameOsMatch_re ?s
      = (if x = CHR ''('' then matches False ?r1 (advance ?s) else [])"
    unfolding nameOsMatch_re_def seqs_def foldr.simps o_apply id_apply
    by (subst seq_atom) (simp add: Cons)
  show ?thesis
    unfolding e0 e1 e2
    by (simp add: Cons version_in_parens_def run_length_0 run_length_take advance_def del: matches.simps)
qed

lemma canonicalize_OS: "map canonicalize ''OS:'' = ''OS:''"
  by code_simp

lemma matches_lit_OS:
  "matches True (lit ''OS:'') s
     = (if map canonicalize (take 3 (rest s)) = ''OS:'' then [advance_by 3 s] else [])"
proof -
  have "length ''OS:'' = 3" by simp
  with matches_lit [of "''OS:''" s] show ?thesis by (simp only: canonicalize_OS)
qed

lemma group_plus_atom:
  "matches icase (Seq (Group n (Plus (Atom a))) Eps) s
     = map (\<lambda>k. (advance_by k s)\<lparr>caps := (n, take k (rest s)) # caps s\<rparr>)
         (rev [1..<Suc (run_length icase a (rest s))])"
  by (simp add: seq_Eps matches_plus_atom comp_def del: matches.simps(3,6) upt_Suc)

lemma id_version_at:
  "case matches True osMatch_id_re \<lparr>pos = i, rest = t, caps = []\<rparr> of
     [] \<Rightarrow> version_after_OS t = None
   | s' # _ \<Rightarrow> version_after_OS t = map_of (caps s') 1 \<and> version_after_OS t \<noteq> None"
proof -
  let ?s = "\<lparr>pos = i, rest = t, caps = []\<rparr>"
  let ?g = "Seq (Group 1 (Plus (Atom VersionChar))) Eps"
  let ?m = "run_length True VersionChar (drop 3 t)"
  have e0: "matches True osMatch_id_re ?s
      = (if map canonicalize (take 3 t) = ''OS:'' then matches True ?g (advance_by 3 ?s) else [])"
    unfolding osMatch_id_re_def seqs_def foldr.simps o_apply id_apply
    by (simp add: matches_lit_OS del: matches.simps(6,8))
  have tw: "?m = 0 \<longleftrightarrow> takeWhile is_version_char (drop 3 t) = []"
    by (simp add: run_length_0)
  show ?thesis
  proof (cases "?m = 0")
    case True
    with tw have "takeWhile is_version_char (drop 3 t) = []" by simp
    with True show ?thesis
      unfolding e0 group_plus_atom
      by (simp add: version_after_OS_def)
  next
    case False
    with tw have ne: "takeWhile is_version_char (drop 3 t) \<noteq> []" by simp
    from False have "rev [1..<Suc ?m] = ?m # rev [1..<?m]" by simp
    with ne show ?thesis
      unfolding e0 group_plus_atom
      by (simp add: version_after_OS_def run_length_take del: upt_Suc)
  qed
qed

lemma exec_from_first_found:
  assumes "\<forall>i t. case matches icase r \<lparr>pos = i, rest = t, caps = []\<rparr> of
             [] \<Rightarrow> f t = None
           | s' # _ \<Rightarrow> f t = map_of (caps s') n \<and> f t \<noteq> None"
  shows "case exec_from icase r i t of
           None \<Rightarrow> first_found f t = None
         | Some m \<Rightarrow> first_found f t = group m n \<and> group m n \<noteq> None"
proof (induction t arbitrary: i)
  case Nil
  from assms have "case matches icase r \<lparr>pos = i, rest = [], caps = []\<rparr> of
             [] \<Rightarrow> f [] = None
           | s' # _ \<Rightarrow> f [] = map_of (caps s') n \<and> f [] \<noteq> None"
    by blast
  then show ?case
    by (cases "matches icase r \<lparr>pos = i, rest = [], caps = []\<rparr>"; cases "f []")
       (simp_all add: group_def)
next
  case (Cons c cs)
  from assms have a: "case matches icase r \<lparr>pos = i, rest = c # cs, caps = []\<rparr> of
             [] \<Rightarrow> f (c # cs) = None
           | s' # _ \<Rightarrow> f (c # cs) = map_of (caps s') n \<and> f (c # cs) \<noteq> None"
    by blast
  show ?case
  proof (cases "matches icase r \<lparr>pos = i, rest = c # cs, caps = []\<rparr>")
    case Nil
    with a have fn: "f (c # cs) = None" by simp
    from Nil have e: "exec_from icase r i (c # cs) = exec_from icase r (Suc i) cs" by simp
    from Cons.IH [of "Suc i"] fn show ?thesis
      unfolding e by (cases "exec_from icase r (Suc i) cs") (simp_all del: exec_from.simps)
  next
    case (Cons s' ss)
    note a [unfolded Cons list.case]
    then have fc: "f (c # cs) = map_of (caps s') n" "f (c # cs) \<noteq> None"
      by blast+
    from fc(2) obtain y where y: "f (c # cs) = Some y" by (cases "f (c # cs)") auto
    with fc(1) have "map_of (caps s') n = Some y" by simp
    with y Cons show ?thesis by (simp add: group_def)
  qed
qed

lemma match_name_version:
  "case match False nameOsMatch_re t of
     None \<Rightarrow> first_found version_in_parens t = None
   | Some m \<Rightarrow> first_found version_in_parens t = group m 1 \<and> group m 1 \<noteq> None"
  unfolding match_def by (rule exec_from_first_found) (simp add: name_version_at)

lemma match_id_version:
  "case match True osMatch_id_re t of
     None \<Rightarrow> first_found version_after_OS t = None
   | Some m \<Rightarrow> first_found version_after_OS t = group m 1 \<and> group m 1 \<noteq> None"
  unfolding match_def by (rule exec_from_first_found) (simp add: id_version_at)

lemma first_found_nonempty:
  assumes "\<forall>t v. f t = Some v \<longrightarrow> v \<noteq> []"
  shows "first_found f t = Some v \<Longrightarrow> v \<noteq> []"
  using assms by (induction t) (auto split: option.splits)

lemma version_in_parens_nonempty: "first_found version_in_parens t = Some v \<Longrightarrow> v \<noteq> []"
  by (erule first_found_nonempty [rotated])
     (auto simp: version_in_parens_def split: list.splits if_splits)

lemma version_after_OS_nonempty: "first_found version_after_OS t = Some v \<Longrightarrow> v \<noteq> []"
  by (erule first_found_nonempty [rotated]) (auto simp: version_after_OS_def split: if_splits)

lemma extract_osVersion_stated: "extract_osVersion s = stated_osVersion s"
proof -
  have n: "(case match False nameOsMatch_re (dev_name s) of
              None \<Rightarrow> ''0''
            | Some m \<Rightarrow> if truthy (group m 1) then the (group m 1) else ''0'')
         = (case first_found version_in_parens (dev_name s) of Some w \<Rightarrow> w | None \<Rightarrow> ''0'')"
    using match_name_version [of "dev_name s"]
      version_in_parens_nonempty [of "dev_name s"]
    by (auto simp: truthy_def split: option.splits)
  have i: "(case match True osMatch_id_re (dev_id s) of
              None \<Rightarrow> ''0''
            | Some m \<Rightarrow> if truthy (group m 1) then the (group m 1) else ''0'')
         = (case first_found version_after_OS (dev_id s) of Some w \<Rightarrow> w | None \<Rightarrow> ''0'')"
    using match_id_version [of "dev_id s"]
      version_after_OS_nonempty [of "dev_id s"]
    by (auto simp: truthy_def split: option.splits)
  have t: "truthy (osVersion s) \<longleftrightarrow> (\<exists>c cs. osVersion s = Some (c # cs))"
    by (auto simp: truthy_def neq_Nil_conv split: option.splits)
  show ?thesis
  proof (cases "truthy (osVersion s)")
    case True
    with t show ?thesis by (auto simp: extract_osVersion_def stated_osVersion_def)
  next
    case False
    with t have o: "(case osVersion s of Some (c # cs) \<Rightarrow> c # cs | _ \<Rightarrow> d) = d" for d
      by (auto split: option.splits list.splits)
    have "extract_osVersion s
        = (let v1 = (case match True osMatch_id_re (dev_id s) of
                       None \<Rightarrow> ''0''
                     | Some m \<Rightarrow> if truthy (group m 1) then the (group m 1) else ''0'')
           in if v1 = ''0'' then
                (case match False nameOsMatch_re (dev_name s) of
                   None \<Rightarrow> ''0''
                 | Some m \<Rightarrow> if truthy (group m 1) then the (group m 1) else ''0'')
              else v1)"
      using False by (auto simp: extract_osVersion_def Let_def split: option.splits)
    then show ?thesis
      unfolding n i stated_osVersion_def o .
  qed
qed

lemma split_not_Nil [simp]: "split sep cs \<noteq> []"
  by (induction cs) (auto simp: Let_def)

lemma decimal_parts_split:
  "decimal_parts n v
     = foldl (\<lambda>n c. 10 * n + (of_char c - 48)) n (hd (split CHR ''.'' v))
       # map Number_digits (tl (split CHR ''.'' v))"
proof (induction v arbitrary: n)
  case Nil
  then show ?case by simp
next
  case (Cons c cs)
  show ?case
  proof (cases "c = CHR ''.''")
    case True
    have "map Number_digits (split CHR ''.'' cs)
        = foldl (\<lambda>n c. 10 * n + (of_char c - 48)) 0 (hd (split CHR ''.'' cs))
          # map Number_digits (tl (split CHR ''.'' cs))"
      by (cases "split CHR ''.'' cs") (simp_all add: Number_digits_def)
    with True Cons.IH [of 0] show ?thesis by simp
  next
    case False
    with Cons.IH [of "10 * n + (of_char c - 48)"] show ?thesis by (simp add: Let_def)
  qed
qed

lemma version_parts_decimal: "version_parts v = decimal_parts 0 v"
proof -
  have "map Number_digits (split CHR ''.'' v)
      = foldl (\<lambda>n c. 10 * n + (of_char c - 48)) 0 (hd (split CHR ''.'' v))
        # map Number_digits (tl (split CHR ''.'' v))"
    by (cases "split CHR ''.'' v") (simp_all add: Number_digits_def)
  then show ?thesis by (simp add: version_parts_def decimal_parts_split)
qed

section \<open>The filter keeps the highest version of each model\<close>

lemma with_version_fields [simp]:
  "osVersion (with_version s) = Some (extract_osVersion s)"
  "modelName (with_version s) = Some (model_of s)"
  by (simp_all add: with_version_def model_of_def)

lemma compare_with_version:
  "compare_osVersion (with_version a) (with_version b) \<le> 0
     \<longleftrightarrow> version_ge (version_of a) (version_of b)"
  by (simp add: compare_osVersion_ge version_of_def)

lemma filter_eq_distinct:
  "distinct xs \<Longrightarrow> x \<in> set xs \<Longrightarrow> filter (\<lambda>y. y = x) xs = [x]"
  by (induction xs) (auto simp: filter_empty_conv)

lemma concat_singletons:
  "(\<And>x. x \<in> set xs \<Longrightarrow> f x = [h x]) \<Longrightarrow> concat (map f xs) = map h xs"
  by (induction xs) auto

lemma filter_runs:
  assumes "\<forall>s \<in> set simulator_list. model_of s \<notin> set Object_prototype_keys"
  shows "\<exists>ks. filterSimulatorsByHighestOSVersion simulator_list
         = Inr (map (\<lambda>k. winner k simulator_list) ks)
       \<and> distinct ks \<and> set ks = model_of ` set simulator_list"
proof -
  from group_simulators_grouped [OF grouped_Nil assms] obtain g where
    g: "group_simulators [] simulator_list = Inr g" "grouped g simulator_list"
    by auto
  have one: "highest_of_group g k = [winner k simulator_list]" if "k \<in> set (Object_keys g)" for k
  proof -
    from that g(2) obtain s where s: "s \<in> set simulator_list" "k = model_of s"
      by (auto simp: grouped_def)
    with grouped_lookup [OF g(2) s(1)]
    have l: "map_of g k = Some (map with_version (group_of k simulator_list))"
      by (simp add: group_of_def)
    from s have "group_of k simulator_list \<noteq> []"
      by (auto simp: group_of_def filter_empty_conv)
    with l show ?thesis by (simp add: highest_of_group_def winner_def Let_def)
  qed
  have "concat (map (highest_of_group g) (Object_keys g))
      = map (\<lambda>k. winner k simulator_list) (Object_keys g)"
    using one by (rule concat_singletons)
  then have "filterSimulatorsByHighestOSVersion simulator_list
      = Inr (map (\<lambda>k. winner k simulator_list) (Object_keys g))"
    using g(1) by (simp add: filterSimulatorsByHighestOSVersion_def)
  moreover have "distinct (Object_keys g)"
    using g(2) by (simp add: Object_keys_distinct grouped_def)
  moreover have "set (Object_keys g) = model_of ` set simulator_list"
    using g(2) by (simp add: grouped_def)
  ultimately show ?thesis by blast
qed

lemma winner_first_highest:
  assumes "k \<in> model_of ` set simulator_list"
  shows "\<exists>s0. List.find (highest_in (group_of k simulator_list)) (group_of k simulator_list) = Some s0
     \<and> winner k simulator_list = with_version s0"
proof -
  let ?grp = "group_of k simulator_list"
  let ?w = "winner k simulator_list"
  from assms have ne: "map with_version ?grp \<noteq> []"
    by (auto simp: group_of_def filter_empty_conv)
  from hd_sort_js_first [OF ne, of compare_osVersion] obtain before after where
    ba: "map with_version ?grp = before @ ?w # after"
        "\<forall>p \<in> set before. \<not> compare_osVersion p ?w \<le> 0"
    unfolding winner_def by blast
  from ba(1) obtain b0 s0 a0 where
    s0: "?grp = b0 @ s0 # a0" "before = map with_version b0" "?w = with_version s0"
    by (auto simp: map_eq_append_conv map_eq_Cons_conv)
  have low: "\<not> highest_in ?grp p" if "p \<in> set b0" for p
  proof
    assume "highest_in ?grp p"
    then have "version_ge (version_of p) (version_of s0)"
      using s0(1) by (simp add: highest_in_def)
    moreover from that ba(2) s0(2,3)
    have "\<not> compare_osVersion (with_version p) (with_version s0) \<le> 0" by simp
    ultimately show False by (simp add: compare_with_version)
  qed
  have high: "highest_in ?grp s0"
    unfolding highest_in_def
  proof
    fix t assume "t \<in> set ?grp"
    then have "with_version t \<in> set (map with_version ?grp)" by simp
    from hd_sort_js_max [of compare_osVersion, OF compare_osVersion_total compare_osVersion_trans this]
    have "compare_osVersion ?w (with_version t) \<le> 0"
      by (simp add: winner_def)
    then show "version_ge (version_of s0) (version_of t)"
      by (simp add: s0(3) compare_with_version)
  qed
  have "List.find (highest_in ?grp) (b0 @ s0 # a0) = Some s0"
    using low high by (induction b0) auto
  with s0 show ?thesis by simp
qed


lemma winner_highest:
  assumes "k \<in> model_of ` set simulator_list"
  shows "\<exists>s0 \<in> set simulator_list. model_of s0 = k \<and> winner k simulator_list = with_version s0
     \<and> highest_in (group_of k simulator_list) s0"
proof -
  from winner_first_highest [OF assms] obtain s0 where
    s0: "List.find (highest_in (group_of k simulator_list)) (group_of k simulator_list) = Some s0"
        "winner k simulator_list = with_version s0"
    by blast
  from s0(1) have "s0 \<in> set (group_of k simulator_list)" "highest_in (group_of k simulator_list) s0"
    by (auto simp: find_Some_iff)
  then show ?thesis using s0(2) by (auto simp: group_of_def)
qed

lemma winner_modelName:
  "k \<in> model_of ` set simulator_list \<Longrightarrow> modelName (winner k simulator_list) = Some k"
  using winner_highest [of k simulator_list] by auto

text \<open>
  C1: for every list of simulator records (records whose name holds \<open>iphone\<close>, as every
  record of the simulators bucket does, and whose versions are digits and dots),
  \<open>filterSimulatorsByHighestOSVersion\<close> returns exactly one record for each model name of
  the list, the model name of a record being its name without a trailing word \<open>Simulator\<close>
  and without a trailing version in parentheses: there are as many records as model names,
  no model name comes twice and every model name comes once.  Each record returned is a
  record of the list with its version and its model name filled in, the version being the
  one of the record or else the one found in its id or in its name, or else \<open>0\<close>; and this
  version is at least the version of every record of the list with the same model name,
  the parts between the dots being compared as numbers from the left and a missing part
  counting as 0.
\<close>

theorem filter_keeps_highest_per_model:
  assumes "\<forall>s \<in> set simulator_list. is_iphone s"
    and "\<forall>s \<in> set simulator_list. version_ok (stated_osVersion s)"
  shows "\<exists>out. filterSimulatorsByHighestOSVersion simulator_list = Inr out
     \<and> length out = card ((\<lambda>s. stated_modelName (dev_name s)) ` set simulator_list)
     \<and> distinct (map modelName out)
     \<and> set (map modelName out)
         = (\<lambda>s. Some (stated_modelName (dev_name s))) ` set simulator_list
     \<and> (\<forall>w \<in> set out. \<exists>s \<in> set simulator_list.
           w = s\<lparr>osVersion := Some (stated_osVersion s),
                 modelName := Some (stated_modelName (dev_name s))\<rparr>
           \<and> (\<forall>t \<in> set simulator_list.
                 stated_modelName (dev_name t) = stated_modelName (dev_name s) \<longrightarrow>
                 version_ge (decimal_parts 0 (stated_osVersion s))
                   (decimal_parts 0 (stated_osVersion t))))"
proof -
  have mo: "model_of = (\<lambda>s. stated_modelName (dev_name s))"
    by (rule ext) (simp add: model_of_def extract_modelName_stated)
  have vo: "version_of s = decimal_parts 0 (stated_osVersion s)" for s
    by (simp add: version_of_def version_parts_decimal extract_osVersion_stated)
  have wv: "with_version s = s\<lparr>osVersion := Some (stated_osVersion s),
                 modelName := Some (stated_modelName (dev_name s))\<rparr>" for s
    by (simp add: with_version_def extract_modelName_stated extract_osVersion_stated)
  have "\<forall>s \<in> set simulator_list. model_of s \<notin> set Object_prototype_keys"
    using assms(1) by (simp add: model_of_def iphone_not_prototype_key)
  from filter_runs [OF this] obtain ks where
    ks: "filterSimulatorsByHighestOSVersion simulator_list
          = Inr (map (\<lambda>k. winner k simulator_list) ks)"
        "distinct ks" "set ks = model_of ` set simulator_list"
    by blast
  let ?out = "map (\<lambda>k. winner k simulator_list) ks"
  have names: "map modelName ?out = map Some ks"
    using ks(3) by (simp add: winner_modelName)
  have l: "length ?out = card ((\<lambda>s. stated_modelName (dev_name s)) ` set simulator_list)"
    using ks(2,3) by (simp add: distinct_card [symmetric] mo)
  have d: "distinct (map modelName ?out)"
    unfolding names using ks(2) by (simp add: distinct_map)
  have s: "set (map modelName ?out)
      = (\<lambda>s. Some (stated_modelName (dev_name s))) ` set simulator_list"
    unfolding names using ks(3) by (auto simp: mo)
  have m: "\<exists>s \<in> set simulator_list.
           w = s\<lparr>osVersion := Some (stated_osVersion s),
                 modelName := Some (stated_modelName (dev_name s))\<rparr>
           \<and> (\<forall>t \<in> set simulator_list.
                 stated_modelName (dev_name t) = stated_modelName (dev_name s) \<longrightarrow>
                 version_ge (decimal_parts 0 (stated_osVersion s))
                   (decimal_parts 0 (stated_osVersion t)))"
    if "w \<in> set ?out" for w
  proof -
    from that obtain k where k: "k \<in> set ks" "w = winner k simulator_list" by auto
    with ks(3) winner_highest [of k simulator_list] obtain s0 where
      s0: "s0 \<in> set simulator_list" "model_of s0 = k" "w = with_version s0"
          "highest_in (group_of k simulator_list) s0"
      by auto
    have "version_ge (decimal_parts 0 (stated_osVersion s0)) (decimal_parts 0 (stated_osVersion t))"
      if "t \<in> set simulator_list" "stated_modelName (dev_name t) = stated_modelName (dev_name s0)"
      for t
    proof -
      from that(2) s0(2) have "model_of t = k" by (simp add: mo)
      with that(1) have "t \<in> set (group_of k simulator_list)" by (simp add: group_of_def)
      with s0(4) have "version_ge (version_of s0) (version_of t)" by (simp add: highest_in_def)
      then show ?thesis by (simp add: vo)
    qed
    with s0(1,3) show ?thesis unfolding wv by blast
  qed
  from ks(1) l d s m show ?thesis by blast
qed

text \<open>
  C9, amended: for every model name of the list exactly one record is emitted, and it is the
  first record met, in input order, among the records of the group whose version is highest;
  when all records of the group have the same version it is the first record of the group.
\<close>

theorem filter_tie_keeps_first_highest:
  assumes "\<forall>s \<in> set simulator_list. is_iphone s"
    and "\<forall>s \<in> set simulator_list. version_ok (extract_osVersion s)"
    and "k \<in> model_of ` set simulator_list"
  shows "\<exists>out s0. filterSimulatorsByHighestOSVersion simulator_list = Inr out
     \<and> List.find (highest_in (group_of k simulator_list)) (group_of k simulator_list) = Some s0
     \<and> filter (\<lambda>w. modelName w = Some k) out = [with_version s0]
     \<and> ((\<forall>s \<in> set (group_of k simulator_list).
            extract_osVersion s = extract_osVersion (hd (group_of k simulator_list)))
          \<longrightarrow> s0 = hd (group_of k simulator_list))"
proof -
  let ?grp = "group_of k simulator_list"
  have "\<forall>s \<in> set simulator_list. model_of s \<notin> set Object_prototype_keys"
    using assms(1) by (simp add: model_of_def iphone_not_prototype_key)
  from filter_runs [OF this] obtain ks where
    ks: "filterSimulatorsByHighestOSVersion simulator_list
          = Inr (map (\<lambda>k. winner k simulator_list) ks)"
        "distinct ks" "set ks = model_of ` set simulator_list"
    by blast
  from winner_first_highest [OF assms(3)] obtain s0 where
    s0: "List.find (highest_in ?grp) ?grp = Some s0" "winner k simulator_list = with_version s0"
    by blast
  have f: "filter (\<lambda>x. modelName (winner x simulator_list) = Some k) ks
      = filter (\<lambda>k'. k' = k) ks"
    using ks(3) by (intro filter_cong refl) (simp add: winner_modelName)
  have "filter (\<lambda>w. modelName w = Some k) (map (\<lambda>k. winner k simulator_list) ks)
      = map (\<lambda>k. winner k simulator_list) (filter (\<lambda>k'. k' = k) ks)"
    by (simp add: filter_map comp_def f)
  also have "filter (\<lambda>k'. k' = k) ks = [k]"
    using ks(2,3) assms(3) by (simp add: filter_eq_distinct)
  finally have one: "filter (\<lambda>w. modelName w = Some k) (map (\<lambda>k. winner k simulator_list) ks)
      = [with_version s0]"
    using s0(2) by simp
  have tie: "s0 = hd ?grp" if "\<forall>s \<in> set ?grp. extract_osVersion s = extract_osVersion (hd ?grp)"
  proof -
    from assms(3) have "?grp \<noteq> []" by (auto simp: group_of_def filter_empty_conv)
    then obtain x xs where x: "?grp = x # xs" by (cases ?grp) auto
    with that have "highest_in ?grp x"
      by (simp add: highest_in_def version_of_def)
    with x s0(1) show ?thesis by simp
  qed
  from ks(1) s0(1) one tie show ?thesis by blast
qed

lemma sim_version [simp]: "extract_osVersion (sim n (c # cs) i) = c # cs"
  by (simp add: extract_osVersion_def truthy_def sim_def device_def)

lemma sim_is_iphone_15: "is_iphone (sim ''iPhone 15'' v i)"
  by (simp add: is_iphone_def sim_def device_def) code_simp

lemma version_ok_17_0: "version_ok ''17.0''"
  by (simp add: version_ok_def is_digit_def Number_digits_def)

lemma version_ok_18_0: "version_ok ''18.0''"
  by (simp add: version_ok_def is_digit_def Number_digits_def)

lemma version_ok_18_4: "version_ok ''18.4''"
  by (simp add: version_ok_def is_digit_def Number_digits_def)

lemma model_of_iPhone_15: "model_of (sim ''iPhone 15'' v i) = ''iPhone 15''"
  by (simp add: model_of_def sim_def device_def) code_simp

text \<open>
  A name that is a property name of \<open>Object.prototype\<close> makes the filter throw; a name that
  holds \<open>iphone\<close> never leads to such a model name (\<open>iphone_not_prototype_key\<close>), so the
  simulators bucket of \<open>listDevices\<close> is never concerned.
\<close>

lemma filter_throws_on_prototype_key:
  "filterSimulatorsByHighestOSVersion [device ''constructor'' ''X'' simulators]
     = Inl (TypeError ''modelGroups[modelName].push is not a function'')"
  by code_simp

lemma version_ok_18_10: "version_ok ''18.10''"
  by (simp add: version_ok_def is_digit_def Number_digits_def)

lemma version_ok_0: "version_ok ''0''"
  by (simp add: version_ok_def is_digit_def Number_digits_def)

lemma mixed_simulators_names:
  "map (\<lambda>s. stated_modelName (dev_name s)) mixed_simulators
     = [''iPhone 15'', ''iPhone 15'', ''iPhone 16 Pro'', ''iPhone 16 Pro'',
        ''iPhone SE (3rd generation)'', ''iPhone SE (3rd generation)'']"
  by code_simp

lemma mixed_simulators_versions:
  "map stated_osVersion mixed_simulators
     = [''17.0'', ''18.4'', ''18.4'', ''0'', ''18.4'', ''18.10'']"
  by code_simp

lemma mixed_simulators_grouped:
  "group_simulators [] mixed_simulators
     = Inr [(''iPhone 15'', map with_version (take 2 mixed_simulators)),
            (''iPhone 16 Pro'', map with_version (take 2 (drop 2 mixed_simulators))),
            (''iPhone SE (3rd generation)'', map with_version (drop 4 mixed_simulators))]"
  by code_simp

lemma letter_no_array_index: "\<not> is_digit c \<Longrightarrow> \<not> is_array_index (c # cs)"
  by (simp add: is_array_index_def)

lemma mixed_simulators_keys:
  "Object_keys [(''iPhone 15'', a), (''iPhone 16 Pro'', b), (''iPhone SE (3rd generation)'', c)]
     = [''iPhone 15'', ''iPhone 16 Pro'', ''iPhone SE (3rd generation)'']"
  by (simp add: Object_keys_def letter_no_array_index is_digit_def)

lemma mixed_simulators_highest:
  "concat (map (highest_of_group
       [(''iPhone 15'', map with_version (take 2 mixed_simulators)),
        (''iPhone 16 Pro'', map with_version (take 2 (drop 2 mixed_simulators))),
        (''iPhone SE (3rd generation)'', map with_version (drop 4 mixed_simulators))])
     [''iPhone 15'', ''iPhone 16 Pro'', ''iPhone SE (3rd generation)''])
   = [(device ''iPhone 15 (18.4)'' ''SIM-2'' simulators)
        \<lparr>osVersion := Some ''18.4'', modelName := Some ''iPhone 15''\<rparr>,
      (device ''iPhone 16 Pro'' ''SIM-3 OS:18.4'' simulators)
        \<lparr>osVersion := Some ''18.4'', modelName := Some ''iPhone 16 Pro''\<rparr>,
      (device ''iPhone SE (3rd generation)'' ''SIM-6'' simulators)
        \<lparr>osVersion := Some ''18.10'', modelName := Some ''iPhone SE (3rd generation)''\<rparr>]"
  by code_simp

lemma mixed_simulators_filtered:
  "filterSimulatorsByHighestOSVersion mixed_simulators
   = Inr [(device ''iPhone 15 (18.4)'' ''SIM-2'' simulators)
            \<lparr>osVersion := Some ''18.4'', modelName := Some ''iPhone 15''\<rparr>,
          (device ''iPhone 16 Pro'' ''SIM-3 OS:18.4'' simulators)
            \<lparr>osVersion := Some ''18.4'', modelName := Some ''iPhone 16 Pro''\<rparr>,
          (device ''iPhone SE (3rd generation)'' ''SIM-6'' simulators)
            \<lparr>osVersion := Some ''18.10'', modelName := Some ''iPhone SE (3rd generation)''\<rparr>]"
  unfolding filterSimulatorsByHighestOSVersion_def mixed_simulators_grouped
  by (simp only: sum.case mixed_simulators_keys mixed_simulators_highest)

text \<open>
  C1 on six records of three models.  The model names lose the word \<open>Simulator\<close> and the
  version in parentheses and keep \<open>(3rd generation)\<close>; the versions come from the field,
  the name and the id, and the record without any counts as \<open>0\<close>; of \<open>18.4\<close> and \<open>18.10\<close>
  the second is the higher.
\<close>

theorem filter_keeps_highest_per_model_witness:
  "list_all is_iphone mixed_simulators
   \<and> list_all (\<lambda>s. version_ok (stated_osVersion s)) mixed_simulators
   \<and> map (\<lambda>s. stated_modelName (dev_name s)) mixed_simulators
       = [''iPhone 15'', ''iPhone 15'', ''iPhone 16 Pro'', ''iPhone 16 Pro'',
          ''iPhone SE (3rd generation)'', ''iPhone SE (3rd generation)'']
   \<and> map stated_osVersion mixed_simulators
       = [''17.0'', ''18.4'', ''18.4'', ''0'', ''18.4'', ''18.10'']
   \<and> filterSimulatorsByHighestOSVersion mixed_simulators
       = Inr [(device ''iPhone 15 (18.4)'' ''SIM-2'' simulators)
                \<lparr>osVersion := Some ''18.4'', modelName := Some ''iPhone 15''\<rparr>,
              (device ''iPhone 16 Pro'' ''SIM-3 OS:18.4'' simulators)
                \<lparr>osVersion := Some ''18.4'', modelName := Some ''iPhone 16 Pro''\<rparr>,
              (device ''iPhone SE (3rd generation)'' ''SIM-6'' simulators)
                \<lparr>osVersion := Some ''18.10'',
                 modelName := Some ''iPhone SE (3rd generation)''\<rparr>]
   \<and> card ((\<lambda>s. stated_modelName (dev_name s)) ` set mixed_simulators) = 3"
proof -
  have h1: "list_all is_iphone mixed_simulators"
    by code_simp
  have "list_all version_ok (map stated_osVersion mixed_simulators)"
    unfolding mixed_simulators_versions
    by (simp add: version_ok_17_0 version_ok_18_4 version_ok_0 version_ok_18_10)
  then have h2: "list_all (\<lambda>s. version_ok (stated_osVersion s)) mixed_simulators"
    by (simp add: list_all_iff)
  from filter_keeps_highest_per_model [of mixed_simulators] h1 h2 obtain out where
    "filterSimulatorsByHighestOSVersion mixed_simulators = Inr out"
    "length out = card ((\<lambda>s. stated_modelName (dev_name s)) ` set mixed_simulators)"
    unfolding list_all_iff by blast
  then have "card ((\<lambda>s. stated_modelName (dev_name s)) ` set mixed_simulators) = 3"
    by (auto simp: mixed_simulators_filtered)
  with h1 h2 mixed_simulators_names mixed_simulators_versions mixed_simulators_filtered
  show ?thesis by simp
qed

lemma tied_then_newer_grouped:
  "group_simulators [] tied_then_newer = Inr [(''iPhone 15'', map with_version tied_then_newer)]"
  by code_simp

lemma tied_then_newer_highest:
  "highest_of_group [(''iPhone 15'', map with_version tied_then_newer)] ''iPhone 15''
     = [with_version (sim ''iPhone 15'' ''18.0'' ''C'')]"
  by code_simp

lemma iPhone_15_no_array_index: "\<not> is_array_index ''iPhone 15''"
  by (simp add: is_array_index_def is_digit_def)

lemma iPhone_15_only_key: "Object_keys [(''iPhone 15'', ds)] = [''iPhone 15'']"
  by (simp add: Object_keys_def iPhone_15_no_array_index)

text \<open>
  C9, as stated, fails: the group below holds two records of the same version, and the one
  record emitted for it is the third record, not the first one met.
\<close>

theorem tied_records_lose_to_newer:
  "filterSimulatorsByHighestOSVersion
     [sim ''iPhone 15'' ''17.0'' ''A'', sim ''iPhone 15'' ''17.0'' ''B'',
      sim ''iPhone 15'' ''18.0'' ''C'']
   = Inr [with_version (sim ''iPhone 15'' ''18.0'' ''C'')]"
  unfolding filterSimulatorsByHighestOSVersion_def tied_then_newer_def [symmetric]
    tied_then_newer_grouped
  by (simp add: iPhone_15_only_key tied_then_newer_highest)

text \<open>The amended C9 on two records of one model with the same version.\<close>

theorem filter_tie_keeps_first_highest_witness:
  "list_all is_iphone tied_pair
   \<and> list_all (\<lambda>s. version_ok (extract_osVersion s)) tied_pair
   \<and> ''iPhone 15'' \<in> model_of ` set tied_pair
   \<and> list_all
        (\<lambda>s. extract_osVersion s = extract_osVersion (hd (group_of ''iPhone 15'' tied_pair)))
        (group_of ''iPhone 15'' tied_pair)
   \<and> hd (group_of ''iPhone 15'' tied_pair) = sim ''iPhone 15'' ''17.0'' ''A''
   \<and> (\<exists>out. filterSimulatorsByHighestOSVersion tied_pair = Inr out
        \<and> filter (\<lambda>w. modelName w = Some ''iPhone 15'') out
            = [with_version (sim ''iPhone 15'' ''17.0'' ''A'')])"
proof -
  have h1: "\<forall>s \<in> set tied_pair. is_iphone s"
    by (simp add: tied_pair_def sim_is_iphone_15)
  have h2: "\<forall>s \<in> set tied_pair. version_ok (extract_osVersion s)"
    by (simp add: tied_pair_def version_ok_17_0)
  have h3: "''iPhone 15'' \<in> model_of ` set tied_pair"
    by (simp add: tied_pair_def model_of_iPhone_15)
  have g: "group_of ''iPhone 15'' tied_pair = tied_pair"
    by (simp add: group_of_def tied_pair_def model_of_iPhone_15)
  have h4: "\<forall>s \<in> set (group_of ''iPhone 15'' tied_pair).
         extract_osVersion s = extract_osVersion (hd (group_of ''iPhone 15'' tied_pair))"
    unfolding g by (simp add: tied_pair_def)
  have h5: "hd (group_of ''iPhone 15'' tied_pair) = sim ''iPhone 15'' ''17.0'' ''A''"
    unfolding g by (simp add: tied_pair_def)
  from filter_tie_keeps_first_highest [OF h1 h2 h3] h4 h5
  have "\<exists>out. filterSimulatorsByHighestOSVersion tied_pair = Inr out
        \<and> filter (\<lambda>w. modelName w = Some ''iPhone 15'') out
            = [with_version (sim ''iPhone 15'' ''17.0'' ''A'')]"
    by metis
  with h1 h2 h3 h4 h5 show ?thesis unfolding list_all_iff by blast
qed

section \<open>Failure of the listing commands\<close>

lemma add_device_sims:
  "\<forall>s \<in> set (sims cd). is_iphone s \<Longrightarrow> \<forall>s \<in> set (sims (add_device c d cd)). is_iphone s"
  by (cases c) (auto simp: add_device_def is_iphone_def Let_def)

lemma ios_line_sims:
  "\<forall>s \<in> set (sims (snd st)). is_iphone s \<Longrightarrow>
   \<forall>s \<in> set (sims (snd (ios_line st l))). is_iphone s"
  using add_device_sims by (auto simp: ios_line_def Let_def split: option.splits)

lemma ios_lines_sims:
  "\<forall>s \<in> set (sims (snd st)). is_iphone s \<Longrightarrow>
   \<forall>s \<in> set (sims (snd (foldl ios_line st ls))). is_iphone s"
proof (induction ls arbitrary: st)
  case Nil
  then show ?case by simp
next
  case (Cons l ls)
  from Cons.prems have "\<forall>s \<in> set (sims (snd (ios_line st l))). is_iphone s"
    by (rule ios_line_sims)
  then show ?case using Cons.IH by simp
qed

lemma simulators_bucket_is_iphone:
  "\<forall>s \<in> set (sims (ios_categorize rawDeviceList)). is_iphone s"
  unfolding ios_categorize_def by (rule ios_lines_sims) (simp add: no_devices_def)

lemma ios_listDevices_logs_nothing: "snd (ios_listDevices (Inr rawDeviceList)) = []"
proof -
  have "\<forall>s \<in> set (sims (ios_categorize rawDeviceList)). model_of s \<notin> set Object_prototype_keys"
    using simulators_bucket_is_iphone [of rawDeviceList]
    by (simp add: model_of_def iphone_not_prototype_key)
  from filter_runs [OF this] obtain out where
    "filterSimulatorsByHighestOSVersion (sims (ios_categorize rawDeviceList)) = Inr out"
    by blast
  then show ?thesis by (simp add: ios_listDevices_def Let_def)
qed

text \<open>
  C4: when the listing command fails, \<open>listDevices\<close> returns the empty result (the three
  empty lists on iOS, the empty list on Android, for either of its two commands) and logs
  the error; nothing is thrown.  An empty captured output gives the empty result and logs
  nothing, and no captured output makes the iOS \<open>listDevices\<close> log an error.
\<close>

theorem listDevices_failure_is_logged:
  "ios_listDevices (Inl e)
     = (\<lparr>physical = [], offline = [], sims = []\<rparr>,
        [ErrorLogged (''Error listing iOS devices: '' @ message e)])
   \<and> android_listDevices (Inl e) avds
     = ([], [ErrorLogged (''Error listing Android devices: '' @ message e)])
   \<and> android_listDevices (Inr out) (Inl e)
     = ([], [ErrorLogged (''Error listing Android devices: '' @ message e)])
   \<and> ios_listDevices (Inr []) = (\<lparr>physical = [], offline = [], sims = []\<rparr>, [])
   \<and> android_listDevices (Inr []) (Inr []) = ([], [])
   \<and> snd (ios_listDevices (Inr out)) = []
   \<and> snd (android_listDevices (Inr out) (Inr avd_list)) = []"
  using ios_listDevices_logs_nothing [of out]
  by (simp add: ios_listDevices_def android_listDevices_def no_devices_def ios_categorize_def
        ios_line_def trim_def avd_line_def Let_def)

section \<open>The standard format of the iOS listing\<close>

text \<open>
  C3 at a line without a version: with one space between the name and the id the standard
  pattern does not match, since it asks for white space on both sides of the optional
  version, and the line yields no record; with two spaces, or with a version, it does.
\<close>

theorem standard_format_needs_two_spaces:
  "parse_device physicalDevices ''My Phone (00008030-001C)'' = None
   \<and> ios_listDevices (Inr (''== Devices =='' @ CHR 0x0A # ''My Phone (00008030-001C)''))
       = (\<lparr>physical = [], offline = [], sims = []\<rparr>, [])
   \<and> parse_device physicalDevices ''My Phone  (00008030-001C)''
       = Some (device ''My Phone'' ''00008030-001C'' physicalDevices)
   \<and> parse_device physicalDevices ''My Phone (17.4) (00008030-001C)''
       = Some ((device ''My Phone'' ''00008030-001C'' physicalDevices)\<lparr>osVersion := Some ''17.4''\<rparr>)"
  by code_simp

end
